theory Spec2Isabelle
  imports Complex_Main "HOL-Library.Word" "HOL-Library.Log_Nat"
begin

section \<open>Binary64 arithmetic\<close>

text \<open>
  Python floats and NumPy \<open>float64\<close> values are IEEE 754 binary64 numbers. A finite
  binary64 value is modelled by the rational number it denotes, and every arithmetic
  operation is the exact operation followed by rounding to the nearest binary64 value,
  ties to the even significand. Overflow to infinity is not modelled: every value of
  this program is bounded by the ensemble size.
\<close>

type_synonym float64 = rat

text \<open>Rounding to the nearest integer, ties to the even one.\<close>

definition round_half_even :: "rat \<Rightarrow> int" where
  "round_half_even x =
     (let f = \<lfloor>x\<rfloor>; d = x - of_int f
      in if d < 1 / 2 then f else if 1 / 2 < d then f + 1 else if even f then f else f + 1)"

text \<open>The binary exponent \<open>e\<close> of a positive number: \<open>2 powi e \<le> x < 2 powi (e + 1)\<close>.\<close>

definition binexp :: "rat \<Rightarrow> int" where
  "binexp x =
     (if 1 \<le> x then bitlen \<lfloor>x\<rfloor> - 1 else - bitlen (\<lceil>1 / x\<rceil> - 1))"

text \<open>
  Rounding to binary64: 53 significant bits, so the spacing of the values around \<open>x\<close>
  is \<open>2 powi (e - 52)\<close>; below the smallest normal number \<open>2 powi (- 1022)\<close> the
  spacing stays \<open>2 powi (- 1074)\<close>.
\<close>

definition fl :: "rat \<Rightarrow> float64" where
  "fl x =
     (if x = 0 then 0
      else let q = max (binexp \<bar>x\<bar>) (- 1022) - 52
           in sgn x * of_int (round_half_even (\<bar>x\<bar> / 2 powi q)) * 2 powi q)"

definition fadd :: "float64 \<Rightarrow> float64 \<Rightarrow> float64" where
  "fadd x y = fl (x + y)"

text \<open>Division; every divisor in this program is non-zero.\<close>

definition fdiv :: "float64 \<Rightarrow> float64 \<Rightarrow> float64" where
  "fdiv x y = fl (x / y)"

text \<open>\<^verbatim>\<open>np.round\<close> on one element: round half to even (\<^verbatim>\<open>rint\<close>).\<close>

definition rint :: "float64 \<Rightarrow> float64" where
  "rint x = of_int (round_half_even x)"

section \<open>The random generator\<close>

text \<open>
  \<^verbatim>\<open>rng = np.random.default_rng(2718)\<close> is a process-wide generator. Its state is
  modelled by the sequence of 64-bit words the bit generator is still to produce.
  \<^verbatim>\<open>rng.random()\<close> takes the next word \<open>w\<close> and returns \<open>(w >> 11) * 2^-53\<close>
  (NumPy's \<^verbatim>\<open>next_double\<close>), a binary64 value in the half-open interval from 0 to 1.
\<close>

type_synonym bit_generator = "nat \<Rightarrow> 64 word"

definition random :: "bit_generator \<Rightarrow> float64 \<times> bit_generator" where
  "random g = (of_int (uint (drop_bit 11 (g 0))) / 2 ^ 53, \<lambda>n. g (Suc n))"

text \<open>The value the \<open>k\<close>-th call of \<^verbatim>\<open>rng.random()\<close> from now on will return.\<close>

definition draw :: "bit_generator \<Rightarrow> nat \<Rightarrow> float64" where
  "draw g k = of_int (uint (drop_bit 11 (g k))) / 2 ^ 53"

section \<open>Lists as objects\<close>

text \<open>
  A Python list of booleans is a mutable object. The store holds the list objects; a
  reference is the index of an object in the store. \<^verbatim>\<open>xs.copy()\<close> allocates a new
  object with the same elements.
\<close>

type_synonym ref = nat
type_synonym heap = "bool list list"

definition list_copy :: "ref \<Rightarrow> heap \<Rightarrow> ref \<times> heap" where
  "list_copy r h = (length h, h @ [h ! r])"

text \<open>
  The inner loop of both synthesizers:
  \<^verbatim>\<open>
    for count, bit in enumerate(src):
        if rng.random() < flip:
            dst[count] = not(bit)
  \<close>
  \<^verbatim>\<open>enumerate\<close> reads \<open>src\<close> by index while the index is below its current
  length. In \<^verbatim>\<open>create_classifiers\<close> \<open>dst\<close> is \<open>src\<close> itself; in
  \<^verbatim>\<open>make_corr_classifiers\<close> \<open>dst\<close> is a fresh copy of \<open>src\<close>. Either way
  \<open>dst\<close> is as long as \<open>src\<close>, so the assignment is never out of range.
\<close>

function flip_loop ::
  "ref \<Rightarrow> ref \<Rightarrow> float64 \<Rightarrow> nat \<Rightarrow> heap \<times> bit_generator \<Rightarrow> heap \<times> bit_generator" where
  "flip_loop src dst flip count (h, g) =
     (if count < length (h ! src) then
        (let b = h ! src ! count;
             (r, g') = random g;
             h' = (if r < flip then h[dst := (h ! dst)[count := \<not> b]] else h)
         in flip_loop src dst flip (Suc count) (h', g'))
      else (h, g))"
  by pat_completeness auto
termination
proof (relation "measure (\<lambda>(src, dst, flip, count, h, g). length (h ! src) - count)", goal_cases)
  case 1
  show ?case by simp
next
  case (2 src dst flip count h g x xa xb y xaa)
  have "length (h[dst := (h ! dst)[count := v]] ! src) = length (h ! src)" for v
    by (cases "dst < length h") (simp_all add: nth_list_update list_update_beyond)
  with 2(1) 2(5) show ?case by (auto split: if_splits)
qed

declare flip_loop.simps [simp del]

section \<open>Independent classifiers\<close>

text \<open>
  \<^verbatim>\<open>
  def create_classifiers(ground_truth, num_classifiers, flip_ratio=.4):
      classifiers = [ground_truth.copy() for x in range(num_classifiers)]
      for classifier in classifiers:
          for count, bit in enumerate(classifier):
              if rng.random() < flip_ratio:
                  classifier[count] = not(bit)
      return classifiers
  \<close>
\<close>

fun copies :: "ref \<Rightarrow> nat \<Rightarrow> heap \<Rightarrow> ref list \<times> heap" where
  "copies r 0 h = ([], h)"
| "copies r (Suc n) h =
     (let (c, h') = list_copy r h; (cs, h'') = copies r n h' in (c # cs, h''))"

fun flip_each :: "ref list \<Rightarrow> float64 \<Rightarrow> heap \<times> bit_generator \<Rightarrow> heap \<times> bit_generator" where
  "flip_each [] flip_ratio s = s"
| "flip_each (classifier # rest) flip_ratio s =
     flip_each rest flip_ratio (flip_loop classifier classifier flip_ratio 0 s)"

definition create_classifiers ::
  "ref \<Rightarrow> nat \<Rightarrow> float64 \<Rightarrow> heap \<times> bit_generator \<Rightarrow> ref list \<times> heap \<times> bit_generator" where
  "create_classifiers ground_truth num_classifiers flip_ratio s =
     (let (classifiers, h') = copies ground_truth num_classifiers (fst s);
          (h'', g') = flip_each classifiers flip_ratio (h', snd s)
      in (classifiers, h'', g'))"

section \<open>Correlated classifiers\<close>

text \<open>
  \<^verbatim>\<open>
  def make_corr_classifiers(base_sys, flip=.1, num_classifiers=99):
      corr_classifiers = []
      for x in range(num_classifiers):
          new_sys = base_sys.copy()
          for count, bit in enumerate(base_sys):
              if rng.random() < flip:
                  new_sys[count] = not(bit)
          corr_classifiers.append(new_sys)
      return corr_classifiers
  \<close>
\<close>

fun make_corr_loop ::
  "ref \<Rightarrow> float64 \<Rightarrow> nat \<Rightarrow> ref list \<Rightarrow> heap \<times> bit_generator
     \<Rightarrow> ref list \<times> heap \<times> bit_generator" where
  "make_corr_loop base_sys flip 0 corr_classifiers s = (corr_classifiers, s)"
| "make_corr_loop base_sys flip (Suc n) corr_classifiers s =
     (let (new_sys, h') = list_copy base_sys (fst s);
          s' = flip_loop base_sys new_sys flip 0 (h', snd s)
      in make_corr_loop base_sys flip n (corr_classifiers @ [new_sys]) s')"

definition make_corr_classifiers ::
  "ref \<Rightarrow> float64 \<Rightarrow> nat \<Rightarrow> heap \<times> bit_generator \<Rightarrow> ref list \<times> heap \<times> bit_generator" where
  "make_corr_classifiers base_sys flip num_classifiers s =
     make_corr_loop base_sys flip num_classifiers [] s"

text \<open>The contents of the lists a result refers to.\<close>

definition deref :: "heap \<Rightarrow> ref list \<Rightarrow> bool list list" where
  "deref h rs = map (\<lambda>r. h ! r) rs"

section \<open>Hard and soft voting\<close>

text \<open>
  \<^verbatim>\<open>
  def do_majority(classifiers):
      return np.round(np.mean(classifiers, axis=0))

  def fuzzy_ensemble(classifiers):
      rounded = np.round(np.mean(classifiers, axis=0))
      return rounded
  \<close>
  NumPy turns the list of sequences into a two-dimensional \<open>float64\<close> array (a boolean
  becomes 0.0 or 1.0) and raises \<^verbatim>\<open>ValueError\<close> when the rows differ in length.
  The mean along axis 0 divides each column sum by the number of rows, converted to
  \<open>float64\<close>. With more than one column the rows are added one after the other.
  With a single column the sum runs along contiguous memory, and NumPy adds it pairwise
  (\<^verbatim>\<open>DOUBLE_pairwise_sum\<close>): fewer than 8 values one after the other; up to 128
  values in 8 interleaved accumulators that are then added as a balanced tree, the
  remaining values one after the other; more than 128 values in two halves, the first
  a multiple of 8 long. For boolean input NumPy converts and sums in buffers; sums of
  zeros and ones are exact, so the order is immaterial there. The mean of an empty
  list is the scalar \<^verbatim>\<open>nan\<close>, with a warning and no exception.
\<close>

datatype error = ValueError

datatype ndarray = NaN | Array "float64 list"

definition as_float :: "bool \<Rightarrow> float64" where
  "as_float b = (if b then 1 else 0)"

function pw_accumulate :: "float64 list \<Rightarrow> float64 list \<Rightarrow> float64 list \<times> float64 list" where
  "pw_accumulate r a =
     (if 8 \<le> length a then pw_accumulate (map2 fadd r (take 8 a)) (drop 8 a) else (r, a))"
  by pat_completeness auto
termination
  by (relation "measure (\<lambda>(r, a). length a)") auto

declare pw_accumulate.simps [simp del]

function pairwise_sum :: "float64 list \<Rightarrow> float64" where
  "pairwise_sum a =
     (let n = length a in
      if n < 8 then foldl fadd 0 a
      else if n \<le> 128 then
        (let (r, rest) = pw_accumulate (take 8 a) (drop 8 a);
             res = fadd (fadd (fadd (r ! 0) (r ! 1)) (fadd (r ! 2) (r ! 3)))
                        (fadd (fadd (r ! 4) (r ! 5)) (fadd (r ! 6) (r ! 7)))
         in foldl fadd res rest)
      else
        (let n2 = n div 2 - (n div 2) mod 8
         in fadd (pairwise_sum (take n2 a)) (pairwise_sum (drop n2 a))))"
  by pat_completeness auto
termination
  by (relation "measure length") auto

declare pairwise_sum.simps [simp del]

definition np_mean_axis0 :: "float64 list list \<Rightarrow> error + ndarray" where
  "np_mean_axis0 a =
     (case a of
        [] \<Rightarrow> Inr NaN
      | row # rows \<Rightarrow>
          if list_all (\<lambda>r. length r = length row) rows
          then Inr (Array (map (\<lambda>s. fdiv s (fl (of_nat (length a))))
                             (if length row = 1 then [pairwise_sum (map hd a)]
                              else foldl (map2 fadd) row rows)))
          else Inl ValueError)"

fun np_round :: "ndarray \<Rightarrow> ndarray" where
  "np_round NaN = NaN"
| "np_round (Array xs) = Array (map rint xs)"

definition do_majority :: "float64 list list \<Rightarrow> error + ndarray" where
  "do_majority classifiers =
     (case np_mean_axis0 classifiers of Inl e \<Rightarrow> Inl e | Inr m \<Rightarrow> Inr (np_round m))"

definition fuzzy_ensemble :: "float64 list list \<Rightarrow> error + ndarray" where
  "fuzzy_ensemble classifiers =
     (case np_mean_axis0 classifiers of
        Inl e \<Rightarrow> Inl e
      | Inr m \<Rightarrow> (let rounded = np_round m in Inr rounded))"

text \<open>
  The number of classifiers voting true at position \<open>i\<close>, and the fraction of the
  ensemble they make up.
\<close>

definition votes :: "bool list list \<Rightarrow> nat \<Rightarrow> nat" where
  "votes classifiers i = length (filter (\<lambda>c. c ! i) classifiers)"

definition fraction :: "bool list list \<Rightarrow> nat \<Rightarrow> rat" where
  "fraction classifiers i = of_nat (votes classifiers i) / of_nat (length classifiers)"

section \<open>Fuzzy classifiers\<close>

text \<open>
  \<^verbatim>\<open>
  def fuzzy_ground(input):
      out = []
      for bit in input:
          if bit:
              fuzzy = (rng.random() + 1) / 2
          else:
              fuzzy = rng.random() / 2
          out.append(fuzzy)
      return out
  \<close>
\<close>

fun fuzzy_ground_loop ::
  "bool list \<Rightarrow> float64 list \<Rightarrow> bit_generator \<Rightarrow> float64 list \<times> bit_generator" where
  "fuzzy_ground_loop [] out g = (out, g)"
| "fuzzy_ground_loop (b # rest) out g =
     (let (r, g') = random g;
          fuzzy = (if b then fdiv (fadd r 1) 2 else fdiv r 2)
      in fuzzy_ground_loop rest (out @ [fuzzy]) g')"

definition fuzzy_ground :: "bool list \<Rightarrow> bit_generator \<Rightarrow> float64 list \<times> bit_generator" where
  "fuzzy_ground input g = fuzzy_ground_loop input [] g"

section \<open>Properties of the rounding\<close>

lemma rat_pow2_le_of_int: "2 ^ a \<le> (n::int) \<Longrightarrow> (2::rat) ^ a \<le> rat_of_int n"
  by (metis of_int_le_iff of_int_numeral of_int_power)

lemma rat_of_int_Suc_le_pow2: "(n::int) < 2 ^ a \<Longrightarrow> rat_of_int n + 1 \<le> 2 ^ a"
proof -
  assume "n < 2 ^ a"
  then have "n + 1 \<le> 2 ^ a" by simp
  then have "rat_of_int (n + 1) \<le> rat_of_int (2 ^ a)" by (simp only: of_int_le_iff)
  then show ?thesis by simp
qed

lemma binexp_bounds:
  assumes "0 < x"
  shows "2 powi binexp x \<le> x \<and> x < 2 powi (binexp x + 1)"
proof (cases "1 \<le> x")
  case True
  define n where "n = \<lfloor>x\<rfloor>"
  have n: "0 < n" using True by (simp add: n_def)
  have nx: "rat_of_int n \<le> x" "x < rat_of_int n + 1"
    using floor_correct[of x] by (simp_all add: n_def)
  define m where "m = bitlen n"
  from bitlen_bounds[OF n]
  have b: "2 ^ nat (m - 1) \<le> n" "n < 2 ^ nat m" by (simp_all add: m_def)
  have pos: "0 < m" using n bitlen_eq_zero_iff[of n] bitlen_nonneg[of n] by (simp add: m_def)
  have e: "binexp x = m - 1"
    using True by (simp add: binexp_def n_def m_def)
  have "(2::rat) ^ nat (m - 1) \<le> x"
    using rat_pow2_le_of_int[OF b(1)] nx(1) by linarith
  moreover have "x < 2 ^ nat m"
    using rat_of_int_Suc_le_pow2[OF b(2)] nx(2) by linarith
  ultimately show ?thesis using pos by (simp add: e power_int_def)
next
  case False
  define y where "y = 1 / x"
  have y: "1 < y" using False assms by (simp add: y_def)
  define k where "k = \<lceil>y\<rceil> - 1"
  have "2 \<le> \<lceil>y\<rceil>" using y by (simp add: le_ceiling_iff) 
  then have k: "0 < k" by (simp add: k_def)
  have ky: "rat_of_int k < y" "y \<le> rat_of_int k + 1"
    using ceiling_correct[of y] unfolding k_def by simp_all
  define m where "m = bitlen k"
  from bitlen_bounds[OF k]
  have b: "2 ^ nat (m - 1) \<le> k" "k < 2 ^ nat m" by (simp_all add: m_def)
  have pos: "0 < m" using k bitlen_eq_zero_iff[of k] bitlen_nonneg[of k] by (simp add: m_def)
  have e: "binexp x = - m"
    using False by (simp add: binexp_def m_def k_def y_def)
  have lo: "(2::rat) ^ nat (m - 1) < y"
    using rat_pow2_le_of_int[OF b(1)] ky(1) by linarith
  have hi: "y \<le> 2 ^ nat m"
    using rat_of_int_Suc_le_pow2[OF b(2)] ky(2) by linarith
  have x: "x = 1 / y" by (simp add: y_def)
  have A: "1 / 2 ^ nat m \<le> x" unfolding x using hi y by (simp add: field_simps)
  have B: "x < 1 / 2 ^ nat (m - 1)" unfolding x using lo y by (simp add: field_simps)
  have pm: "(2::rat) powi (- m) = 1 / 2 ^ nat m"
    using pos by (simp add: power_int_def field_simps)
  have pm1: "(2::rat) powi (- m + 1) = 1 / 2 ^ nat (m - 1)"
  proof (cases "m = 1")
    case True
    then show ?thesis by simp
  next
    case False
    with pos have "- m + 1 < 0" by simp
    moreover have "nat (- (- m + 1)) = nat (m - 1)" by simp
    ultimately show ?thesis by (simp add: power_int_def field_simps)
  qed
  show ?thesis unfolding e pm pm1 using A B by simp
qed

lemma pow2_powi_less_imp: "(2::rat) powi a < 2 powi b \<Longrightarrow> a < b"
  using power_int_increasing[of b a "2::rat"] by (cases "a < b") auto

lemma binexp_unique:
  assumes "2 powi e \<le> x" "x < 2 powi (e + 1)"
  shows "binexp x = e"
proof -
  have "(0::rat) < 2 powi e" by simp
  then have x: "0 < x" using assms(1) by linarith
  from binexp_bounds[OF x] have b: "2 powi binexp x \<le> x" "x < 2 powi (binexp x + 1)" by simp_all
  have "(2::rat) powi e < 2 powi (binexp x + 1)" using assms(1) b(2) by linarith
  then have 1: "e < binexp x + 1" by (rule pow2_powi_less_imp)
  have "(2::rat) powi binexp x < 2 powi (e + 1)" using assms(2) b(1) by linarith
  then have 2: "binexp x < e + 1" by (rule pow2_powi_less_imp)
  from 1 2 show ?thesis by simp
qed


lemma round_half_even_of_int [simp]: "round_half_even (of_int z) = z"
  by (simp add: round_half_even_def)

lemma round_half_even_ge: "of_int a \<le> x \<Longrightarrow> a \<le> round_half_even x"
proof -
  assume "of_int a \<le> x"
  then have "a \<le> \<lfloor>x\<rfloor>" by (simp add: le_floor_iff)
  then show ?thesis by (auto simp: round_half_even_def Let_def)
qed

lemma round_half_even_le: "x \<le> of_int b \<Longrightarrow> round_half_even x \<le> b"
proof (cases "x = of_int b")
  case True
  then show ?thesis by simp
next
  case False
  assume "x \<le> of_int b"
  with False have "x < of_int b" by simp
  then have "\<lfloor>x\<rfloor> < b" by (simp add: floor_less_iff)
  then show ?thesis by (auto simp: round_half_even_def Let_def)
qed

lemma round_half_even_gt_half:
  assumes "of_int a + 1 / 2 < x"
  shows "a + 1 \<le> round_half_even x"
proof -
  have a: "a \<le> \<lfloor>x\<rfloor>" using assms by (simp add: le_floor_iff)
  show ?thesis
  proof (cases "a = \<lfloor>x\<rfloor>")
    case True
    then have "1 / 2 < x - of_int \<lfloor>x\<rfloor>" using assms by simp
    then show ?thesis using True by (simp add: round_half_even_def Let_def)
  next
    case False
    with a have "a + 1 \<le> \<lfloor>x\<rfloor>" by simp
    then show ?thesis by (auto simp: round_half_even_def Let_def)
  qed
qed

lemma fl_pos:
  assumes "2 powi e \<le> x" "x < 2 powi (e + 1)"
  shows "fl x = of_int (round_half_even (x / 2 powi (max e (- 1022) - 52)))
                * 2 powi (max e (- 1022) - 52)"
proof -
  have "(0::rat) < 2 powi e" by simp
  then have x: "0 < x" using assms(1) by linarith
  have "binexp \<bar>x\<bar> = e" using x binexp_unique[OF assms] by simp
  then show ?thesis using x by (simp add: fl_def Let_def)
qed

lemma fl_exact:
  assumes "0 < m" "m < 2 ^ 53" "- 1074 \<le> q"
  shows "fl (of_int m * 2 powi q) = of_int m * 2 powi q"
proof -
  define x :: rat where "x = of_int m * 2 powi q"
  have x: "0 < x" using assms(1) by (simp add: x_def)
  define e where "e = binexp x"
  from binexp_bounds[OF x] have b: "2 powi e \<le> x" "x < 2 powi (e + 1)" by (simp_all add: e_def)
  have "rat_of_int m < 2 ^ 53" using assms(2) by (metis of_int_less_iff of_int_numeral of_int_power)
  then have "x < 2 ^ 53 * 2 powi q" by (simp add: x_def)
  also have "\<dots> = 2 powi (53 + q)" using power_int_add[of "2::rat" 53 q] by simp
  finally have "(2::rat) powi e < 2 powi (53 + q)" using b(1) by linarith
  then have "e < 53 + q" by (rule pow2_powi_less_imp)
  define Q where "Q = max e (- 1022) - 52"
  have Q: "Q \<le> q" using \<open>e < 53 + q\<close> assms(3) by (simp add: Q_def)
  define z where "z = m * 2 ^ nat (q - Q)"
  have p: "(2::rat) powi (q - Q) = of_int (2 ^ nat (q - Q))" using Q by (simp add: power_int_def)
  have "2 powi q = (2::rat) powi (q - Q) * 2 powi Q"
    using power_int_add[of "2::rat" "q - Q" Q] by simp
  then have xz: "x = of_int z * 2 powi Q" by (simp add: x_def z_def p)
  then have "x / 2 powi Q = of_int z" by simp
  then have "fl x = of_int (round_half_even (of_int z)) * 2 powi Q"
    using fl_pos[OF b] by (simp only: Q_def)
  then have "fl x = of_int z * 2 powi Q" by (simp only: round_half_even_of_int)
  then show ?thesis using xz by (simp add: x_def)
qed

lemma fl_0 [simp]: "fl 0 = 0"
  by (simp add: fl_def)

lemma fl_of_nat: "n < 2 ^ 53 \<Longrightarrow> fl (of_nat n) = of_nat n"
proof (cases "n = 0")
  case True
  then show ?thesis by simp
next
  case False
  assume "n < 2 ^ 53"
  then have "int n < 2 ^ 53" by (metis of_nat_less_iff of_nat_numeral of_nat_power)
  with False fl_exact[of "int n" 0] show ?thesis by simp
qed

lemma fl_pow2: "- 1022 \<le> a \<Longrightarrow> fl (2 powi a) = 2 powi a"
  using fl_exact[of 1 a] by simp

lemma fl_le_pow2:
  assumes "0 < x" "x \<le> 2 powi a" "- 1021 \<le> a"
  shows "fl x \<le> 2 powi a"
proof (cases "x = 2 powi a")
  case True
  then show ?thesis using fl_pow2[of a] assms(3) by simp
next
  case False
  define e where "e = binexp x"
  from binexp_bounds[OF assms(1)] have b: "2 powi e \<le> x" "x < 2 powi (e + 1)" by (simp_all add: e_def)
  have "(2::rat) powi e < 2 powi a" using b(1) assms(2) False by linarith
  then have ea: "e < a" by (rule pow2_powi_less_imp)
  define Q where "Q = max e (- 1022) - 52"
  have Qa: "Q + 53 \<le> a" using ea assms(3) by (simp add: Q_def)
  have "(2::rat) powi (e + 1) \<le> 2 powi (Q + 53)"
    by (rule power_int_increasing) (simp_all add: Q_def)
  then have "x < 2 powi (Q + 53)" using b(2) by linarith
  also have "\<dots> = 2 ^ 53 * 2 powi Q" using power_int_add[of "2::rat" 53 Q] by (simp add: add.commute)
  finally have "x / 2 powi Q \<le> of_int (2 ^ 53)" by (simp add: field_simps)
  then have "round_half_even (x / 2 powi Q) \<le> 2 ^ 53" by (rule round_half_even_le)
  then have "rat_of_int (round_half_even (x / 2 powi Q)) \<le> rat_of_int (2 ^ 53)" by (simp only: of_int_le_iff)
  then have "rat_of_int (round_half_even (x / 2 powi Q)) * 2 powi Q \<le> 2 ^ 53 * 2 powi Q"
    by (simp add: mult_right_mono)
  also have "\<dots> = 2 powi (Q + 53)" using power_int_add[of "2::rat" 53 Q] by (simp add: add.commute)
  also have "\<dots> \<le> 2 powi a" by (rule power_int_increasing) (use Qa in simp_all)
  finally show ?thesis using fl_pos[OF b] by (simp add: Q_def)
qed

lemma fl_ge_pow2:
  assumes "2 powi a \<le> x" "- 1022 \<le> a"
  shows "2 powi a \<le> fl x"
proof -
  have "(0::rat) < 2 powi a" by simp
  then have x: "0 < x" using assms(1) by linarith
  define e where "e = binexp x"
  from binexp_bounds[OF x] have b: "2 powi e \<le> x" "x < 2 powi (e + 1)" by (simp_all add: e_def)
  have "(2::rat) powi a < 2 powi (e + 1)" using b(2) assms(1) by linarith
  then have ae: "a \<le> e" using pow2_powi_less_imp by fastforce
  define Q where "Q = e - 52"
  have Q: "max e (- 1022) - 52 = Q" using ae assms(2) by (simp add: Q_def)
  have pe: "2 powi e = (2::rat) ^ 52 * 2 powi Q"
    using power_int_add[of "2::rat" 52 Q] by (simp add: Q_def)
  then have "of_int (2 ^ 52) \<le> x / 2 powi Q" using b(1) by (simp add: field_simps)
  then have "2 ^ 52 \<le> round_half_even (x / 2 powi Q)" by (rule round_half_even_ge)
  then have "rat_of_int (2 ^ 52) \<le> rat_of_int (round_half_even (x / 2 powi Q))" by (simp only: of_int_le_iff)
  then have "rat_of_int (2 ^ 52) * 2 powi Q \<le> rat_of_int (round_half_even (x / 2 powi Q)) * 2 powi Q"
    by (rule mult_right_mono) simp
  then have "2 powi e \<le> rat_of_int (round_half_even (x / 2 powi Q)) * 2 powi Q"
    using pe by simp
  moreover have "(2::rat) powi a \<le> 2 powi e" by (rule power_int_increasing) (use ae in simp_all)
  ultimately have "2 powi a \<le> rat_of_int (round_half_even (x / 2 powi Q)) * 2 powi Q" by linarith
  then show ?thesis using fl_pos[OF b] Q by simp
qed

lemma fl_1 [simp]: "fl 1 = 1"
  using fl_pow2[of 0] by simp

lemma fl_half [simp]: "fl (1 / 2) = 1 / 2"
  using fl_pow2[of "- 1"] by (simp add: power_int_minus_divide)

lemma round_half_even_nonneg: "0 \<le> x \<Longrightarrow> 0 \<le> round_half_even x"
  using round_half_even_ge[of 0 x] by simp

lemma fl_nonneg: "0 \<le> x \<Longrightarrow> 0 \<le> fl x"
  by (cases "x = 0") (simp_all add: fl_def Let_def round_half_even_nonneg)

section \<open>The random draws\<close>

lemma random_draw:
  "\<exists>k. fst (random g) = of_int k / 2 ^ 53 \<and> 0 \<le> k \<and> k < 2 ^ 53"
proof -
  define w where "w = g 0"
  have "uint w < 2 ^ 64" using uint_bounded[of w] by simp
  then have "uint w div 2 ^ 11 < 2 ^ 53" by simp
  moreover have "uint (drop_bit 11 w) = uint w div 2 ^ 11"
    by (simp add: drop_bit_eq_div uint_div_distrib)
  ultimately have "uint (drop_bit 11 w) < 2 ^ 53" by simp
  moreover have "0 \<le> uint (drop_bit 11 w)" by simp
  moreover have "fst (random g) = of_int (uint (drop_bit 11 w)) / 2 ^ 53"
    unfolding random_def w_def fst_conv ..
  ultimately show ?thesis by blast
qed

lemma random_range: "0 \<le> fst (random g) \<and> fst (random g) < 1"
proof -
  from random_draw[of g] obtain k where k: "fst (random g) = of_int k / 2 ^ 53" "0 \<le> k" "k < 2 ^ 53"
    by blast
  have "rat_of_int k < 2 ^ 53" using k(3) by (metis of_int_less_iff of_int_numeral of_int_power)
  then show ?thesis using k(1,2) by simp
qed

section \<open>Fuzzy values\<close>

lemma fuzzy_true_range:
  assumes "0 \<le> r" "r < 1"
  shows "1 / 2 \<le> fdiv (fadd r 1) 2 \<and> fdiv (fadd r 1) 2 \<le> 1"
proof -
  define x where "x = fl (r + 1)"
  have "2 powi 0 \<le> fl (r + 1)" by (rule fl_ge_pow2) (use assms in simp_all)
  moreover have "fl (r + 1) \<le> 2 powi 1" by (rule fl_le_pow2) (use assms in simp_all)
  ultimately have x: "1 \<le> x" "x \<le> 2" by (simp_all add: x_def)
  have "2 powi (- 1) \<le> fl (x / 2)"
    by (rule fl_ge_pow2) (use x in \<open>simp_all add: power_int_minus_divide\<close>)
  moreover have "fl (x / 2) \<le> 2 powi 0" by (rule fl_le_pow2) (use x in simp_all)
  ultimately show ?thesis by (simp add: fdiv_def fadd_def x_def power_int_minus_divide)
qed

lemma fuzzy_false_exact:
  assumes "0 \<le> k" "k < 2 ^ 53"
  shows "fdiv (of_int k / 2 ^ 53) 2 = of_int k / 2 ^ 54"
proof (cases "k = 0")
  case True
  then show ?thesis by (simp add: fdiv_def)
next
  case False
  with assms have "0 < k" by simp
  from fl_exact[OF this assms(2), of "- 54"]
  show ?thesis by (simp add: fdiv_def power_int_minus_divide)
qed

lemma fuzzy_false_range:
  "0 \<le> fdiv (fst (random g)) 2 \<and> fdiv (fst (random g)) 2 < 1 / 2"
proof -
  from random_draw[of g] obtain k where k: "fst (random g) = of_int k / 2 ^ 53" "0 \<le> k" "k < 2 ^ 53"
    by blast
  have "rat_of_int k < 2 ^ 53" using k(3) by (metis of_int_less_iff of_int_numeral of_int_power)
  moreover have "0 \<le> rat_of_int k" using k(2) by simp
  ultimately have "0 \<le> rat_of_int k / 2 ^ 54 \<and> rat_of_int k / 2 ^ 54 < 1 / 2" by simp
  then show ?thesis unfolding k(1) fuzzy_false_exact[OF k(2,3)] .
qed

lemma fuzzy_ground_loop_ranges:
  "\<exists>vs. fst (fuzzy_ground_loop input out g) = out @ vs \<and>
     list_all2 (\<lambda>b v. if b then 1 / 2 \<le> v \<and> v \<le> 1 else 0 \<le> v \<and> v < 1 / 2) input vs"
proof (induction input arbitrary: out g)
  case Nil
  then show ?case by simp
next
  case (Cons b rest)
  obtain r g' where rg: "random g = (r, g')" by (cases "random g")
  define fuzzy where "fuzzy = (if b then fdiv (fadd r 1) 2 else fdiv r 2)"
  from Cons.IH[of "out @ [fuzzy]" g'] obtain vs where
    vs: "fst (fuzzy_ground_loop rest (out @ [fuzzy]) g') = (out @ [fuzzy]) @ vs"
      "list_all2 (\<lambda>b v. if b then 1 / 2 \<le> v \<and> v \<le> 1 else 0 \<le> v \<and> v < 1 / 2) rest vs"
    by blast
  have r: "r = fst (random g)" by (simp add: rg)
  have "if b then 1 / 2 \<le> fuzzy \<and> fuzzy \<le> 1 else 0 \<le> fuzzy \<and> fuzzy < 1 / 2"
    using fuzzy_true_range[of r] random_range[of g] fuzzy_false_range[of g]
    by (simp add: fuzzy_def r)
  then have "list_all2 (\<lambda>b v. if b then 1 / 2 \<le> v \<and> v \<le> 1 else 0 \<le> v \<and> v < 1 / 2)
      (b # rest) (fuzzy # vs)"
    using vs(2) by (simp only: list_all2_Cons simp_thms)
  moreover have "fst (fuzzy_ground_loop (b # rest) out g) = out @ fuzzy # vs"
    using vs(1) by (simp add: rg fuzzy_def)
  ultimately show ?case by blast
qed

section \<open>Claims about the fuzzy classifiers\<close>

text \<open>
  C1. The docstring of \<^verbatim>\<open>fuzzy_ground\<close> promises that the fuzzy values round to the
  original booleans. At the draw 0.0, which \<^verbatim>\<open>rng.random()\<close> can return, a true bit
  becomes \<open>(0.0 + 1) / 2 = 0.5\<close>, and \<^verbatim>\<open>np.round\<close> rounds 0.5 to the even
  integer 0: the true bit is read back as false.
\<close>

theorem fuzzy_ground_true_bit_rounds_to_false:
  "fst (fuzzy_ground [True] (\<lambda>_. 0)) = [1 / 2] \<and>
   map rint (fst (fuzzy_ground [True] (\<lambda>_. 0))) = [as_float False]"
  by code_simp

text \<open>
  C10, as stated: a true bit always yields a value strictly below 1. This fails at the
  largest draw \<open>1 - 2^-53\<close> (every bit of the generator's word set): the sum
  \<open>r + 1 = 2 - 2^-53\<close> lies half-way between the binary64 values \<open>2 - 2^-52\<close> and
  2 and rounds to 2, so the fuzzy value is exactly 1.
\<close>

theorem fuzzy_ground_true_bit_reaches_one:
  "fst (fuzzy_ground [True] (\<lambda>_. - 1)) = [1]"
  by code_simp

text \<open>
  C10, amended: for every boolean sequence and every state of the generator, the value
  emitted for a false bit lies in the half-open interval from 0 to 0.5, and the value
  emitted for a true bit lies in the closed interval from 0.5 to 1. So 0.5 is attainable
  only for true bits.
\<close>

theorem fuzzy_ground_value_ranges:
  "list_all2 (\<lambda>b v. if b then 1 / 2 \<le> v \<and> v \<le> 1 else 0 \<le> v \<and> v < 1 / 2)
     input (fst (fuzzy_ground input g))"
  using fuzzy_ground_loop_ranges[of input "[]" g] by (auto simp: fuzzy_ground_def)

section \<open>Majority vote on booleans\<close>

lemma rint_low: "0 \<le> y \<Longrightarrow> y \<le> 1 / 2 \<Longrightarrow> rint y = 0"
proof -
  assume a: "0 \<le> y" "y \<le> 1 / 2"
  then have "\<lfloor>y\<rfloor> = 0" by (simp add: floor_eq_iff)
  then show ?thesis using a by (simp add: rint_def round_half_even_def Let_def)
qed

lemma rint_high: "1 / 2 < y \<Longrightarrow> y \<le> 1 \<Longrightarrow> rint y = 1"
proof (cases "y = 1")
  case True
  then show ?thesis using round_half_even_of_int[of 1] by (simp add: rint_def)
next
  case False
  assume a: "1 / 2 < y" "y \<le> 1"
  with False have "\<lfloor>y\<rfloor> = 0" by (simp add: floor_eq_iff)
  then show ?thesis using a by (simp add: rint_def round_half_even_def Let_def)
qed

lemma fl_above_half:
  assumes "0 < n" "n < 2 ^ 53" "n < 2 * s" "s < n"
  shows "1 / 2 < fl (of_nat s / of_nat n)"
proof -
  define x :: rat where "x = of_nat s / of_nat n"
  have n: "0 < rat_of_nat n" using assms(1) by simp
  have n53: "rat_of_nat n < 2 ^ 53"
    using assms(2) by (metis of_nat_less_iff of_nat_numeral of_nat_power)
  have "n + 1 \<le> 2 * s" using assms(3) by simp
  then have "rat_of_nat (n + 1) \<le> rat_of_nat (2 * s)" by (simp only: of_nat_le_iff)
  then have s: "rat_of_nat n + 1 \<le> 2 * rat_of_nat s" by simp
  have "rat_of_nat s < rat_of_nat n" using assms(4) by (simp only: of_nat_less_iff)
  then have x1: "x < 1" using n by (simp add: x_def)
  have xh: "1 / 2 \<le> x" using s n by (simp add: x_def field_simps)
  have b: "2 powi (- 1) \<le> x" "x < 2 powi (- 1 + 1)"
    using xh x1 by (simp_all add: power_int_minus_divide)
  have p: "(2::rat) powi (- 53) = 1 / 2 ^ 53" by (simp add: power_int_minus_divide)
  have flx: "fl x = of_int (round_half_even (x * 2 ^ 53)) / 2 ^ 53"
    using fl_pos[OF b] by (simp add: p)
  have "(rat_of_nat n + 1) * 2 ^ 52 \<le> rat_of_nat s * 2 ^ 53" using s by simp
  moreover have "rat_of_nat n * (2 ^ 52 + 1 / 2) < (rat_of_nat n + 1) * 2 ^ 52"
    using n53 by (simp add: field_simps)
  ultimately have "rat_of_nat n * (2 ^ 52 + 1 / 2) < rat_of_nat s * 2 ^ 53" by linarith
  then have "2 ^ 52 + 1 / 2 < x * 2 ^ 53" using n by (simp add: x_def field_simps)
  then have "of_int (2 ^ 52) + 1 / 2 < x * 2 ^ 53" by simp
  then have "2 ^ 52 + 1 \<le> round_half_even (x * 2 ^ 53)" by (rule round_half_even_gt_half)
  then have "rat_of_int (2 ^ 52 + 1) \<le> rat_of_int (round_half_even (x * 2 ^ 53))"
    by (simp only: of_int_le_iff)
  then have "(2 ^ 52 + 1) / 2 ^ 53 \<le> fl x" unfolding flx by (simp add: field_simps)
  then show ?thesis unfolding x_def by simp
qed

lemma vote_round_high:
  assumes "0 < n" "n < 2 ^ 53" "n < 2 * s" "s \<le> n"
  shows "rint (fdiv (of_nat s) (of_nat n)) = 1"
proof (cases "s = n")
  case True
  then show ?thesis using assms(1) rint_high[of 1] by (simp add: fdiv_def)
next
  case False
  with assms have sn: "s < n" by simp
  have h: "1 / 2 < fl (of_nat s / of_nat n)" by (rule fl_above_half[OF assms(1-3) sn])
  have "rat_of_nat s < rat_of_nat n" using sn by (simp only: of_nat_less_iff)
  then have "rat_of_nat s / rat_of_nat n \<le> 2 powi 0" using assms(1) by simp
  moreover have "0 < rat_of_nat s / rat_of_nat n" using assms(1,3) by simp
  ultimately have "fl (rat_of_nat s / rat_of_nat n) \<le> 2 powi 0" by (intro fl_le_pow2) simp_all
  then show ?thesis using h rint_high by (simp add: fdiv_def)
qed

lemma vote_round_low:
  assumes "0 < n" "2 * s \<le> n"
  shows "rint (fdiv (of_nat s) (of_nat n)) = 0"
proof (cases "s = 0")
  case True
  then show ?thesis using rint_low[of 0] by (simp add: fdiv_def)
next
  case False
  define x :: rat where "x = of_nat s / of_nat n"
  have n: "0 < rat_of_nat n" using assms(1) by simp
  have x: "0 < x" using False n by (simp add: x_def)
  have "rat_of_nat (2 * s) \<le> rat_of_nat n" using assms(2) by (simp only: of_nat_le_iff)
  then have "x \<le> 2 powi (- 1)" using n by (simp add: x_def field_simps power_int_minus_divide)
  then have "fl x \<le> 2 powi (- 1)" using x by (intro fl_le_pow2) simp_all
  then have "fl x \<le> 1 / 2" by (simp add: power_int_minus_divide)
  moreover have "0 \<le> fl x" using x by (intro fl_nonneg) simp
  ultimately show ?thesis using rint_low by (simp add: fdiv_def x_def)
qed


lemma votes_Nil [simp]: "votes [] i = 0"
  by (simp add: votes_def)

lemma votes_Cons: "votes (c # cs) i = (if c ! i then 1 else 0) + votes cs i"
  by (simp add: votes_def)

lemma votes_le: "votes cs i \<le> length cs"
  by (simp add: votes_def)

lemma fadd_count:
  assumes "k + 1 < 2 ^ 53"
  shows "fadd (of_nat k) (as_float b) = of_nat (k + (if b then 1 else 0))"
proof -
  have e: "rat_of_nat k + as_float b = of_nat (k + (if b then 1 else 0))"
    by (simp add: as_float_def)
  have "k + (if b then 1 else 0) < 2 ^ 53" using assms by simp
  then have "fl (of_nat (k + (if b then 1 else 0))) = of_nat (k + (if b then 1 else 0))"
    by (rule fl_of_nat)
  then show ?thesis unfolding fadd_def e .
qed

lemma column_sums:
  assumes "\<forall>c\<in>set cs. length c = N" "length ks = N" "\<forall>i<N. ks ! i + length cs < 2 ^ 53"
  shows "foldl (map2 fadd) (map rat_of_nat ks) (map (map as_float) cs) =
         map (\<lambda>i. rat_of_nat (ks ! i + votes cs i)) [0..<N]"
  using assms
proof (induction cs arbitrary: ks)
  case Nil
  have "map (\<lambda>i. rat_of_nat (ks ! i)) [0..<N] = map rat_of_nat ks"
    using Nil(2) by (intro nth_equalityI) simp_all
  then show ?case by simp
next
  case (Cons c cs)
  define ks' where "ks' = map (\<lambda>i. ks ! i + (if c ! i then 1 else 0)) [0..<N]"
  have len: "length c = N" using Cons.prems(1) by simp
  have step: "map2 fadd (map rat_of_nat ks) (map as_float c) = map rat_of_nat ks'"
  proof (rule nth_equalityI)
    show "length (map2 fadd (map rat_of_nat ks) (map as_float c)) = length (map rat_of_nat ks')"
      using len Cons.prems(2) by (simp add: ks'_def)
  next
    fix i assume "i < length (map2 fadd (map rat_of_nat ks) (map as_float c))"
    then have i: "i < N" using len Cons.prems(2) by simp
    have "ks ! i + 1 < 2 ^ 53" using Cons.prems(3) i by fastforce
    then show "map2 fadd (map rat_of_nat ks) (map as_float c) ! i = map rat_of_nat ks' ! i"
      using i len Cons.prems(2) by (simp add: ks'_def fadd_count)
  qed
  have a3: "\<forall>i<N. ks' ! i + length cs < 2 ^ 53"
  proof (intro allI impI)
    fix i assume i: "i < N"
    have "ks ! i + length (c # cs) < 2 ^ 53" using Cons.prems(3) i by blast
    then show "ks' ! i + length cs < 2 ^ 53" using i by (simp add: ks'_def)
  qed
  have a1: "\<forall>c\<in>set cs. length c = N" using Cons.prems(1) by simp
  have a2: "length ks' = N" by (simp add: ks'_def)
  from a1 a2 a3 have "foldl (map2 fadd) (map rat_of_nat ks') (map (map as_float) cs) =
      map (\<lambda>i. rat_of_nat (ks' ! i + votes cs i)) [0..<N]"
    by (rule Cons.IH)
  moreover have "map (\<lambda>i. rat_of_nat (ks' ! i + votes cs i)) [0..<N] =
      map (\<lambda>i. rat_of_nat (ks ! i + votes (c # cs) i)) [0..<N]"
    by (rule map_cong) (simp_all add: ks'_def votes_Cons)
  ultimately show ?case using step by simp
qed

lemma fadd_of_nat:
  "a + b < 2 ^ 53 \<Longrightarrow> fadd (rat_of_nat a) (rat_of_nat b) = rat_of_nat (a + b)"
  unfolding fadd_def using fl_of_nat[of "a + b"] by simp

lemma foldl_fadd_of_nat:
  "k + sum_list ks < 2 ^ 53 \<Longrightarrow>
   foldl fadd (rat_of_nat k) (map rat_of_nat ks) = rat_of_nat (k + sum_list ks)"
proof (induction ks arbitrary: k)
  case Nil
  then show ?case by simp
next
  case (Cons x ks)
  have "k + x < 2 ^ 53" using Cons.prems by simp
  then have "fadd (rat_of_nat k) (rat_of_nat x) = rat_of_nat (k + x)" by (rule fadd_of_nat)
  moreover have "(k + x) + sum_list ks < 2 ^ 53" using Cons.prems by simp
  ultimately show ?case using Cons.IH[of "k + x"] by (simp add: add.assoc)
qed

lemma sum_list_map2_add:
  "length xs = length ys \<Longrightarrow> sum_list (map2 (+) xs ys) = sum_list xs + sum_list (ys :: nat list)"
  by (induction xs ys rule: list_induct2) simp_all

lemma sum_list_take_drop: "sum_list (take n ks) + sum_list (drop n ks) = sum_list (ks :: nat list)"
  by (metis append_take_drop_id sum_list_append)

lemma map2_fadd_of_nat:
  assumes "length rs = length xs" "sum_list rs + sum_list xs < 2 ^ 53"
  shows "map2 fadd (map rat_of_nat rs) (map rat_of_nat xs) = map rat_of_nat (map2 (+) rs xs)"
proof (rule nth_equalityI)
  show "length (map2 fadd (map rat_of_nat rs) (map rat_of_nat xs)) =
        length (map rat_of_nat (map2 (+) rs xs))"
    by simp
next
  fix i assume "i < length (map2 fadd (map rat_of_nat rs) (map rat_of_nat xs))"
  then have i: "i < length rs" "i < length xs" by simp_all
  have "rs ! i \<le> sum_list rs" using i(1) by (intro member_le_sum_list) simp_all
  moreover have "xs ! i \<le> sum_list xs" using i(2) by (intro member_le_sum_list) simp_all
  ultimately have "rs ! i + xs ! i < 2 ^ 53" using assms(2) by linarith
  then show "map2 fadd (map rat_of_nat rs) (map rat_of_nat xs) ! i =
             map rat_of_nat (map2 (+) rs xs) ! i"
    using i by (simp add: fadd_of_nat)
qed

lemma pw_accumulate_of_nat:
  assumes "length rs = 8" "sum_list rs + sum_list ks < 2 ^ 53"
  shows "\<exists>rs' rest. pw_accumulate (map rat_of_nat rs) (map rat_of_nat ks) =
             (map rat_of_nat rs', map rat_of_nat rest) \<and>
           length rs' = 8 \<and> sum_list rs' + sum_list rest = sum_list rs + sum_list ks"
  using assms
proof (induction "length ks" arbitrary: rs ks rule: less_induct)
  case less
  show ?case
  proof (cases "8 \<le> length ks")
    case False
    then have "pw_accumulate (map rat_of_nat rs) (map rat_of_nat ks) =
        (map rat_of_nat rs, map rat_of_nat ks)"
      by (subst pw_accumulate.simps) simp
    then show ?thesis using less.prems(1) by blast
  next
    case True
    define xs where "xs = take 8 ks"
    define rs1 where "rs1 = map2 (+) rs xs"
    have lx: "length xs = 8" using True by (simp add: xs_def)
    have split: "sum_list xs + sum_list (drop 8 ks) = sum_list ks"
      unfolding xs_def by (rule sum_list_take_drop)
    have s1: "sum_list rs1 = sum_list rs + sum_list xs"
      unfolding rs1_def using less.prems(1) lx by (intro sum_list_map2_add) simp
    have "sum_list rs + sum_list xs < 2 ^ 53" using less.prems(2) split by linarith
    then have step: "map2 fadd (map rat_of_nat rs) (map rat_of_nat xs) = map rat_of_nat rs1"
      unfolding rs1_def using less.prems(1) lx by (intro map2_fadd_of_nat) simp_all
    have "length (drop 8 ks) < length ks" using True by simp
    moreover have "length rs1 = 8" using less.prems(1) lx by (simp add: rs1_def)
    moreover have "sum_list rs1 + sum_list (drop 8 ks) < 2 ^ 53"
      using less.prems(2) split s1 by linarith
    ultimately obtain rs' rest where
      r: "pw_accumulate (map rat_of_nat rs1) (map rat_of_nat (drop 8 ks)) =
            (map rat_of_nat rs', map rat_of_nat rest)"
        "length rs' = 8" "sum_list rs' + sum_list rest = sum_list rs1 + sum_list (drop 8 ks)"
      using less.hyps[of "drop 8 ks" rs1] by blast
    have "pw_accumulate (map rat_of_nat rs) (map rat_of_nat ks) =
        pw_accumulate (map rat_of_nat rs1) (map rat_of_nat (drop 8 ks))"
      using True step by (subst pw_accumulate.simps) (simp add: xs_def take_map drop_map)
    moreover have "sum_list rs' + sum_list rest = sum_list rs + sum_list ks"
      using r(3) s1 split by linarith
    ultimately show ?thesis using r(1,2) by auto
  qed
qed

lemma length_8_cases:
  assumes "length (rs :: nat list) = 8"
  obtains a0 a1 a2 a3 a4 a5 a6 a7 where "rs = [a0, a1, a2, a3, a4, a5, a6, a7]"
proof -
  have "rs = [rs ! 0, rs ! 1, rs ! 2, rs ! 3, rs ! 4, rs ! 5, rs ! 6, rs ! 7]"
    using assms by (intro nth_equalityI) (auto simp: nth_Cons' less_Suc_eq numeral_eq_Suc)
  then show ?thesis using that by blast
qed

lemma pairwise_sum_small: "length a < 8 \<Longrightarrow> pairwise_sum a = foldl fadd 0 a"
  by (subst pairwise_sum.simps) simp

lemma pairwise_sum_block:
  "8 \<le> length a \<Longrightarrow> length a \<le> 128 \<Longrightarrow>
   pw_accumulate (take 8 a) (drop 8 a) = (r, rest) \<Longrightarrow>
   pairwise_sum a =
     foldl fadd (fadd (fadd (fadd (r ! 0) (r ! 1)) (fadd (r ! 2) (r ! 3)))
                      (fadd (fadd (r ! 4) (r ! 5)) (fadd (r ! 6) (r ! 7)))) rest"
  by (subst pairwise_sum.simps) simp

lemma pairwise_sum_halves:
  "128 < length a \<Longrightarrow> n2 = length a div 2 - (length a div 2) mod 8 \<Longrightarrow>
   pairwise_sum a = fadd (pairwise_sum (take n2 a)) (pairwise_sum (drop n2 a))"
  by (subst pairwise_sum.simps) (simp add: Let_def)

lemma pairwise_sum_of_nat:
  "sum_list ks < 2 ^ 53 \<Longrightarrow> pairwise_sum (map rat_of_nat ks) = rat_of_nat (sum_list ks)"
proof (induction "length ks" arbitrary: ks rule: less_induct)
  case less
  define n where "n = length ks"
  consider "n < 8" | "8 \<le> n" "n \<le> 128" | "128 < n" by linarith
  then show ?case
  proof cases
    case 1
    have "foldl fadd (rat_of_nat 0) (map rat_of_nat ks) = rat_of_nat (0 + sum_list ks)"
      by (rule foldl_fadd_of_nat) (use less.prems in simp)
    moreover have "pairwise_sum (map rat_of_nat ks) = foldl fadd 0 (map rat_of_nat ks)"
      by (rule pairwise_sum_small) (use 1 in \<open>simp add: n_def\<close>)
    ultimately show ?thesis by simp
  next
    case 2
    define rs where "rs = take 8 ks"
    have lr: "length rs = 8" using 2(1) by (simp add: rs_def n_def)
    have split: "sum_list rs + sum_list (drop 8 ks) = sum_list ks"
      unfolding rs_def by (rule sum_list_take_drop)
    then have "sum_list rs + sum_list (drop 8 ks) < 2 ^ 53" using less.prems by simp
    from pw_accumulate_of_nat[OF lr this] obtain rs' rest where
      r: "pw_accumulate (map rat_of_nat rs) (map rat_of_nat (drop 8 ks)) =
            (map rat_of_nat rs', map rat_of_nat rest)"
        "length rs' = 8" "sum_list rs' + sum_list rest = sum_list rs + sum_list (drop 8 ks)"
      by blast
    from r(2) obtain a0 a1 a2 a3 a4 a5 a6 a7 where rs': "rs' = [a0, a1, a2, a3, a4, a5, a6, a7]"
      by (rule length_8_cases)
    have tot: "a0 + a1 + a2 + a3 + a4 + a5 + a6 + a7 + sum_list rest < 2 ^ 53"
      using r(3) split less.prems by (simp add: rs')
    have tree: "fadd (fadd (fadd (rat_of_nat a0) (rat_of_nat a1)) (fadd (rat_of_nat a2) (rat_of_nat a3)))
                     (fadd (fadd (rat_of_nat a4) (rat_of_nat a5)) (fadd (rat_of_nat a6) (rat_of_nat a7))) =
                rat_of_nat (sum_list rs')"
    proof -
      have "fadd (rat_of_nat a0) (rat_of_nat a1) = rat_of_nat (a0 + a1)"
        by (rule fadd_of_nat) (use tot in linarith)
      moreover have "fadd (rat_of_nat a2) (rat_of_nat a3) = rat_of_nat (a2 + a3)"
        by (rule fadd_of_nat) (use tot in linarith)
      moreover have "fadd (rat_of_nat a4) (rat_of_nat a5) = rat_of_nat (a4 + a5)"
        by (rule fadd_of_nat) (use tot in linarith)
      moreover have "fadd (rat_of_nat a6) (rat_of_nat a7) = rat_of_nat (a6 + a7)"
        by (rule fadd_of_nat) (use tot in linarith)
      moreover have "fadd (rat_of_nat (a0 + a1)) (rat_of_nat (a2 + a3)) = rat_of_nat ((a0 + a1) + (a2 + a3))"
        by (rule fadd_of_nat) (use tot in linarith)
      moreover have "fadd (rat_of_nat (a4 + a5)) (rat_of_nat (a6 + a7)) = rat_of_nat ((a4 + a5) + (a6 + a7))"
        by (rule fadd_of_nat) (use tot in linarith)
      moreover have "fadd (rat_of_nat ((a0 + a1) + (a2 + a3))) (rat_of_nat ((a4 + a5) + (a6 + a7))) =
          rat_of_nat (((a0 + a1) + (a2 + a3)) + ((a4 + a5) + (a6 + a7)))"
        by (rule fadd_of_nat) (use tot in linarith)
      moreover have "((a0 + a1) + (a2 + a3)) + ((a4 + a5) + (a6 + a7)) = sum_list rs'"
        by (simp add: rs')
      ultimately show ?thesis by (simp only:)
    qed
    have "foldl fadd (rat_of_nat (sum_list rs')) (map rat_of_nat rest) =
        rat_of_nat (sum_list rs' + sum_list rest)"
      by (rule foldl_fadd_of_nat) (use tot in \<open>simp add: rs'\<close>)
    also have "\<dots> = rat_of_nat (sum_list ks)" using r(3) split by simp
    finally have fin: "foldl fadd (rat_of_nat (sum_list rs')) (map rat_of_nat rest) =
        rat_of_nat (sum_list ks)" .
    have acc: "pw_accumulate (take 8 (map rat_of_nat ks)) (drop 8 (map rat_of_nat ks)) =
        (map rat_of_nat rs', map rat_of_nat rest)"
      using r(1) by (simp add: rs_def take_map drop_map)
    define R where "R = map rat_of_nat rs'"
    have nth: "R ! 0 = rat_of_nat a0" "R ! 1 = rat_of_nat a1" "R ! 2 = rat_of_nat a2"
      "R ! 3 = rat_of_nat a3" "R ! 4 = rat_of_nat a4" "R ! 5 = rat_of_nat a5"
      "R ! 6 = rat_of_nat a6" "R ! 7 = rat_of_nat a7"
      by (simp_all add: rs' R_def)
    have "pairwise_sum (map rat_of_nat ks) =
        foldl fadd (fadd (fadd (fadd (R ! 0) (R ! 1)) (fadd (R ! 2) (R ! 3)))
                         (fadd (fadd (R ! 4) (R ! 5)) (fadd (R ! 6) (R ! 7))))
          (map rat_of_nat rest)"
      by (rule pairwise_sum_block) (use 2 acc in \<open>simp_all add: n_def R_def\<close>)
    then show ?thesis by (simp only: nth tree fin)
  next
    case 3
    define n2 where "n2 = n div 2 - (n div 2) mod 8"
    have n2: "0 < n2" "n2 < n" using 3 by (simp_all add: n2_def) 
    have split: "sum_list (take n2 ks) + sum_list (drop n2 ks) = sum_list ks"
      by (rule sum_list_take_drop)
    have "pairwise_sum (map rat_of_nat (take n2 ks)) = rat_of_nat (sum_list (take n2 ks))"
      by (rule less.hyps) (use n2 split less.prems in \<open>simp_all add: n_def\<close>)
    moreover have "pairwise_sum (map rat_of_nat (drop n2 ks)) = rat_of_nat (sum_list (drop n2 ks))"
      by (rule less.hyps) (use n2 split less.prems in \<open>simp_all add: n_def\<close>)
    moreover have "fadd (rat_of_nat (sum_list (take n2 ks))) (rat_of_nat (sum_list (drop n2 ks))) =
        rat_of_nat (sum_list ks)"
      using fadd_of_nat[of "sum_list (take n2 ks)" "sum_list (drop n2 ks)"] split less.prems by simp
    moreover have "pairwise_sum (map rat_of_nat ks) =
        fadd (pairwise_sum (take n2 (map rat_of_nat ks))) (pairwise_sum (drop n2 (map rat_of_nat ks)))"
      by (rule pairwise_sum_halves) (use 3 in \<open>simp_all add: n_def n2_def\<close>)
    ultimately show ?thesis by (simp add: take_map drop_map)
  qed
qed

lemma sum_list_votes:
  "sum_list (map (\<lambda>c. if c ! i then 1 else 0) cs) = votes cs i"
  by (induction cs) (simp_all add: votes_Cons)

lemma single_column_sum:
  assumes "\<forall>c\<in>set cs. length c = 1" "length cs < 2 ^ 53"
  shows "pairwise_sum (map hd (map (map as_float) cs)) = rat_of_nat (votes cs 0)"
proof -
  have "map hd (map (map as_float) cs) = map rat_of_nat (map (\<lambda>c. if c ! 0 then 1 else 0) cs)"
  proof (rule nth_equalityI)
    show "length (map hd (map (map as_float) cs)) =
          length (map rat_of_nat (map (\<lambda>c. if c ! 0 then 1 else 0) cs))"
      by simp
  next
    fix j assume "j < length (map hd (map (map as_float) cs))"
    then have j: "j < length cs" by simp
    then have "length (cs ! j) = 1" using assms(1) by simp
    then obtain b where "cs ! j = [b]" by (cases "cs ! j") auto
    then show "map hd (map (map as_float) cs) ! j =
               map rat_of_nat (map (\<lambda>c. if c ! 0 then 1 else 0) cs) ! j"
      using j by (simp add: as_float_def)
  qed
  moreover have "sum_list (map (\<lambda>c. if c ! 0 then 1 else 0) cs) < (2::nat) ^ 53"
    using votes_le[of cs 0] assms(2) by (simp add: sum_list_votes)
  then have "pairwise_sum (map rat_of_nat (map (\<lambda>c. if c ! 0 then 1 else 0) cs)) =
      rat_of_nat (sum_list (map (\<lambda>c. if c ! 0 then 1 else 0) cs))"
    by (rule pairwise_sum_of_nat)
  ultimately show ?thesis by (simp only: sum_list_votes)
qed

lemma do_majority_bools:
  assumes "cs \<noteq> []" "\<forall>c\<in>set cs. length c = N" "length cs < 2 ^ 53"
  shows "do_majority (map (map as_float) cs) =
         Inr (Array (map (\<lambda>i. rint (fdiv (of_nat (votes cs i)) (of_nat (length cs)))) [0..<N]))"
proof -
  from assms(1) obtain row rows where cs: "cs = row # rows" by (cases cs) auto
  define ks where "ks = map (\<lambda>b. if b then 1 else (0::nat)) row"
  have row: "length row = N" and rows: "\<forall>c\<in>set rows. length c = N"
    using assms(2) by (simp_all add: cs)
  have r0: "map as_float row = map rat_of_nat ks"
    by (simp add: ks_def as_float_def)
  have "\<forall>i<N. ks ! i + length rows < 2 ^ 53"
    using assms(3) row by (auto simp: cs ks_def)
  with rows have "foldl (map2 fadd) (map rat_of_nat ks) (map (map as_float) rows) =
      map (\<lambda>i. rat_of_nat (ks ! i + votes rows i)) [0..<N]"
    by (intro column_sums) (simp_all add: ks_def row)
  moreover have "map (\<lambda>i. rat_of_nat (ks ! i + votes rows i)) [0..<N] =
      map (\<lambda>i. rat_of_nat (votes cs i)) [0..<N]"
    by (rule map_cong) (simp_all add: ks_def cs votes_Cons row)
  ultimately have sums: "foldl (map2 fadd) (map as_float row) (map (map as_float) rows) =
      map (\<lambda>i. rat_of_nat (votes cs i)) [0..<N]"
    by (simp add: r0)
  have shape: "list_all (\<lambda>r. length r = length (map as_float row)) (map (map as_float) rows)"
    using rows row by (simp add: list_all_iff)
  have count: "fl (rat_of_nat (length cs)) = rat_of_nat (length cs)"
    by (rule fl_of_nat[OF assms(3)])
  have "np_mean_axis0 (map (map as_float) cs) =
      Inr (Array (map (\<lambda>i. fdiv (of_nat (votes cs i)) (of_nat (length cs))) [0..<N]))"
  proof (cases "N = 1")
    case False
    then show ?thesis
      unfolding np_mean_axis0_def using shape sums count row by (simp add: cs comp_def)
  next
    case True
    have "pairwise_sum (map hd (map (map as_float) cs)) = rat_of_nat (votes cs 0)"
      using assms(2,3) True by (intro single_column_sum) simp_all
    then have "pairwise_sum (map hd (map (map as_float) (row # rows))) =
        rat_of_nat (votes cs 0)"
      by (simp only: cs)
    then show ?thesis
      unfolding np_mean_axis0_def cs list.map list.case using shape count row True
      by (simp add: cs)
  qed
  then show ?thesis by (simp add: do_majority_def comp_def)
qed

lemma fraction_gt_half:
  "0 < length cs \<Longrightarrow> 1 / 2 < fraction cs i \<longleftrightarrow> length cs < 2 * votes cs i"
proof -
  assume "0 < length cs"
  then have "1 / 2 < fraction cs i \<longleftrightarrow> rat_of_nat (length cs) < rat_of_nat (2 * votes cs i)"
    by (simp add: fraction_def field_simps)
  then show ?thesis by (simp only: of_nat_less_iff)
qed

lemma fraction_le_half:
  "0 < length cs \<Longrightarrow> fraction cs i \<le> 1 / 2 \<longleftrightarrow> 2 * votes cs i \<le> length cs"
proof -
  assume "0 < length cs"
  then have "fraction cs i \<le> 1 / 2 \<longleftrightarrow> rat_of_nat (2 * votes cs i) \<le> rat_of_nat (length cs)"
    by (simp add: fraction_def field_simps)
  then show ?thesis by (simp only: of_nat_le_iff)
qed

section \<open>Claims about the aggregators\<close>

text \<open>
  C2, as stated: an empty ensemble makes \<^verbatim>\<open>do_majority\<close> and
  \<^verbatim>\<open>fuzzy_ensemble\<close> fail with an error. Neither function checks its argument,
  and NumPy's mean of an empty list is not an exception: no error is raised.
\<close>

theorem empty_ensemble_raises_no_error:
  "\<not> isl (do_majority []) \<and> \<not> isl (fuzzy_ensemble [])"
  by (simp add: do_majority_def fuzzy_ensemble_def np_mean_axis0_def)

text \<open>
  C2, amended: on an empty ensemble \<^verbatim>\<open>do_majority\<close> and \<^verbatim>\<open>fuzzy_ensemble\<close>
  raise no error and return NaN.
\<close>

theorem empty_ensemble_yields_nan:
  "do_majority [] = Inr NaN \<and> fuzzy_ensemble [] = Inr NaN"
  by (simp add: do_majority_def fuzzy_ensemble_def np_mean_axis0_def)

text \<open>
  C3. Soft vote and hard vote are the same function: on every input
  \<^verbatim>\<open>fuzzy_ensemble\<close> returns what \<^verbatim>\<open>do_majority\<close> returns, an error included.
\<close>

theorem fuzzy_ensemble_is_do_majority:
  "fuzzy_ensemble classifiers = do_majority classifiers"
  by (cases "np_mean_axis0 classifiers") (simp_all add: fuzzy_ensemble_def do_majority_def)

text \<open>
  C4. For a non-empty ensemble of boolean sequences of one length \<open>N\<close> and a position
  \<open>i\<close>, \<^verbatim>\<open>do_majority\<close> returns an array that holds 1.0 at \<open>i\<close> when more than
  half of the classifiers vote true there, and 0.0 when fewer than half do. The ensemble
  has fewer than \<open>2^53\<close> members, so that the column sums are exact in binary64.
\<close>

theorem do_majority_strict_majority:
  assumes "classifiers \<noteq> []" "\<forall>c\<in>set classifiers. length c = N"
    "length classifiers < 2 ^ 53" "i < N"
  shows "\<exists>out. do_majority (map (map as_float) classifiers) = Inr (Array out) \<and>
           length out = N \<and>
           (1 / 2 < fraction classifiers i \<longrightarrow> out ! i = as_float True) \<and>
           (fraction classifiers i < 1 / 2 \<longrightarrow> out ! i = as_float False)"
proof -
  define n where "n = length classifiers"
  define out where
    "out = map (\<lambda>i. rint (fdiv (of_nat (votes classifiers i)) (of_nat n))) [0..<N]"
  have n: "0 < n" using assms(1) by (simp add: n_def)
  have eq: "do_majority (map (map as_float) classifiers) = Inr (Array out)"
    using do_majority_bools[OF assms(1-3)] by (simp add: out_def n_def)
  have oi: "out ! i = rint (fdiv (of_nat (votes classifiers i)) (of_nat n))"
    using assms(4) by (simp add: out_def)
  have hi: "out ! i = as_float True" if "1 / 2 < fraction classifiers i"
  proof -
    from that have "n < 2 * votes classifiers i"
      using n fraction_gt_half[of classifiers i] by (simp add: n_def)
    then show ?thesis
      using vote_round_high[of n "votes classifiers i"] n assms(3) votes_le[of classifiers i]
      by (simp add: oi n_def as_float_def)
  qed
  have lo: "out ! i = as_float False" if "fraction classifiers i < 1 / 2"
  proof -
    from that have "fraction classifiers i \<le> 1 / 2" by simp
    then have "2 * votes classifiers i \<le> n"
      using n fraction_le_half[of classifiers i] by (simp add: n_def)
    then show ?thesis
      using vote_round_low[of n "votes classifiers i"] n by (simp add: oi as_float_def)
  qed
  show ?thesis using eq hi lo by (intro exI[of _ out]) (simp add: out_def)
qed

theorem do_majority_strict_majority_witness:
  "(1 / 2 < fraction [[True], [True], [False]] 0 \<and>
    (\<exists>out. do_majority (map (map as_float) [[True], [True], [False]]) = Inr (Array out) \<and>
       length out = 1 \<and> out ! 0 = as_float True)) \<and>
   (fraction [[False], [True], [False]] 0 < 1 / 2 \<and>
    (\<exists>out. do_majority (map (map as_float) [[False], [True], [False]]) = Inr (Array out) \<and>
       length out = 1 \<and> out ! 0 = as_float False))"
proof -
  have f1: "1 / 2 < fraction [[True], [True], [False]] 0"
    by (simp add: fraction_def votes_def)
  have f2: "fraction [[False], [True], [False]] 0 < 1 / 2"
    by (simp add: fraction_def votes_def)
  have "\<exists>out. do_majority (map (map as_float) [[True], [True], [False]]) = Inr (Array out) \<and>
       length out = 1 \<and> out ! 0 = as_float True"
    using do_majority_strict_majority[of "[[True], [True], [False]]" 1 0] f1 by auto
  moreover have "\<exists>out. do_majority (map (map as_float) [[False], [True], [False]]) = Inr (Array out) \<and>
       length out = 1 \<and> out ! 0 = as_float False"
    using do_majority_strict_majority[of "[[False], [True], [False]]" 1 0] f2 by auto
  ultimately show ?thesis using f1 f2 by blast
qed

text \<open>
  C5. A tie is resolved by a fixed rule: for an ensemble of even size (fewer than
  \<open>2^53\<close> members) and a position where exactly half of the classifiers vote true,
  \<^verbatim>\<open>do_majority\<close> returns 0.0 there, whatever the sequences and their order. The
  mean is exactly 0.5, and \<^verbatim>\<open>np.round\<close> rounds it to the even integer 0.
\<close>

theorem do_majority_tie_is_false:
  assumes "classifiers \<noteq> []" "\<forall>c\<in>set classifiers. length c = N"
    "length classifiers < 2 ^ 53" "i < N"
    "even (length classifiers)" "fraction classifiers i = 1 / 2"
  shows "\<exists>out. do_majority (map (map as_float) classifiers) = Inr (Array out) \<and>
           length out = N \<and> out ! i = as_float False"
proof -
  define n where "n = length classifiers"
  define out where
    "out = map (\<lambda>i. rint (fdiv (of_nat (votes classifiers i)) (of_nat n))) [0..<N]"
  have n: "0 < n" using assms(1) by (simp add: n_def)
  have eq: "do_majority (map (map as_float) classifiers) = Inr (Array out)"
    using do_majority_bools[OF assms(1-3)] by (simp add: out_def n_def)
  have oi: "out ! i = rint (fdiv (of_nat (votes classifiers i)) (of_nat n))"
    using assms(4) by (simp add: out_def)
  have "2 * votes classifiers i \<le> n"
    using n fraction_le_half[of classifiers i] assms(6) by (simp add: n_def)
  then have "out ! i = as_float False"
    using vote_round_low[of n "votes classifiers i"] n by (simp add: oi as_float_def)
  then show ?thesis using eq by (intro exI[of _ out]) (simp add: out_def)
qed

theorem do_majority_tie_is_false_witness:
  "even (length [[True, False], [False, False]]) \<and>
   fraction [[True, False], [False, False]] 0 = 1 / 2 \<and>
   fraction [[False, False], [True, False]] 0 = 1 / 2 \<and>
   (\<exists>out. do_majority (map (map as_float) [[True, False], [False, False]]) = Inr (Array out) \<and>
      length out = 2 \<and> out ! 0 = as_float False) \<and>
   (\<exists>out. do_majority (map (map as_float) [[False, False], [True, False]]) = Inr (Array out) \<and>
      length out = 2 \<and> out ! 0 = as_float False)"
proof -
  have f1: "fraction [[True, False], [False, False]] 0 = 1 / 2"
    by (simp add: fraction_def votes_def)
  have f2: "fraction [[False, False], [True, False]] 0 = 1 / 2"
    by (simp add: fraction_def votes_def)
  have "\<exists>out. do_majority (map (map as_float) [[True, False], [False, False]]) = Inr (Array out) \<and>
      length out = 2 \<and> out ! 0 = as_float False"
    using do_majority_tie_is_false[of "[[True, False], [False, False]]" 2 0] f1 by auto
  moreover have "\<exists>out. do_majority (map (map as_float) [[False, False], [True, False]]) = Inr (Array out) \<and>
      length out = 2 \<and> out ! 0 = as_float False"
    using do_majority_tie_is_false[of "[[False, False], [True, False]]" 2 0] f2 by auto
  ultimately show ?thesis using f1 f2 by simp
qed

section \<open>The store under the flip loops\<close>

lemma flip_loop_step:
  "flip_loop s d f i (h, g) =
     (if i < length (h ! s)
      then flip_loop s d f (Suc i)
             (if fst (random g) < f then h[d := (h ! d)[i := \<not> h ! s ! i]] else h, snd (random g))
      else (h, g))"
  by (subst flip_loop.simps) (simp add: Let_def split: prod.splits)

lemma store_update_shape:
  "length (h[d := (h ! d)[i := v]] ! r) = length (h ! r)"
  by (cases "d < length h") (simp_all add: nth_list_update list_update_beyond)

lemma flip_loop_frame:
  "length (fst (flip_loop s d f i (h, g))) = length h \<and>
   (\<forall>r. r \<noteq> d \<longrightarrow> fst (flip_loop s d f i (h, g)) ! r = h ! r) \<and>
   (\<forall>r. length (fst (flip_loop s d f i (h, g)) ! r) = length (h ! r))"
proof (induction "length (h ! s) - i" arbitrary: i h g)
  case 0
  then show ?case by (subst (1 2 3) flip_loop_step) simp
next
  case (Suc n)
  define h1 where
    "h1 = (if fst (random g) < f then h[d := (h ! d)[i := \<not> h ! s ! i]] else h)"
  have i: "i < length (h ! s)" using Suc(2) by simp
  have shape: "length (h1 ! r) = length (h ! r)" for r
    by (simp add: h1_def store_update_shape)
  have len: "length h1 = length h" by (simp add: h1_def)
  have other: "r \<noteq> d \<Longrightarrow> h1 ! r = h ! r" for r by (simp add: h1_def)
  have "n = length (h1 ! s) - Suc i" using Suc(2) shape by simp
  from Suc(1)[OF this, of "snd (random g)"]
  have IH: "length (fst (flip_loop s d f (Suc i) (h1, snd (random g)))) = length h1"
    "\<And>r. r \<noteq> d \<Longrightarrow> fst (flip_loop s d f (Suc i) (h1, snd (random g))) ! r = h1 ! r"
    "\<And>r. length (fst (flip_loop s d f (Suc i) (h1, snd (random g))) ! r) = length (h1 ! r)"
    by simp_all
  have unfold: "flip_loop s d f i (h, g) = flip_loop s d f (Suc i) (h1, snd (random g))"
    using i by (subst flip_loop_step) (simp add: h1_def)
  show ?case unfolding unfold using IH len other shape by simp
qed

lemma flip_loop_none: "fst (flip_loop s d 0 i (h, g)) = h"
proof (induction "length (h ! s) - i" arbitrary: i g)
  case 0
  then show ?case by (subst flip_loop_step) simp
next
  case (Suc n)
  have "\<not> fst (random g) < 0" using random_range[of g] by simp
  moreover have "n = length (h ! s) - Suc i" using Suc(2) by simp
  ultimately show ?case using Suc(1)[of "Suc i" "snd (random g)"] Suc(2)
    by (subst flip_loop_step) simp
qed

lemma flip_loop_all:
  assumes "d < length h" "length (h ! d) = length (h ! s)"
  shows "fst (flip_loop s d 1 i (h, g)) ! d = take i (h ! d) @ map Not (drop i (h ! s))"
  using assms
proof (induction "length (h ! s) - i" arbitrary: i h g)
  case 0
  then show ?case by (subst flip_loop_step) simp
next
  case (Suc n)
  define h1 where "h1 = h[d := (h ! d)[i := \<not> h ! s ! i]]"
  have i: "i < length (h ! s)" using Suc(2) by simp
  have shape: "length (h1 ! r) = length (h ! r)" for r
    by (simp add: h1_def store_update_shape)
  have d1: "h1 ! d = (h ! d)[i := \<not> h ! s ! i]" using Suc.prems(1) by (simp add: h1_def)
  have s1: "drop (Suc i) (h1 ! s) = drop (Suc i) (h ! s)"
    using Suc.prems(1) by (cases "s = d") (simp_all add: h1_def)
  have "n = length (h1 ! s) - Suc i" using Suc(2) shape by simp
  moreover have "d < length h1" using Suc.prems(1) by (simp add: h1_def)
  moreover have "length (h1 ! d) = length (h1 ! s)" using Suc.prems(2) shape by simp
  ultimately have IH: "fst (flip_loop s d 1 (Suc i) (h1, snd (random g))) ! d =
      take (Suc i) (h1 ! d) @ map Not (drop (Suc i) (h1 ! s))"
    by (rule Suc(1))
  have unfold: "flip_loop s d 1 i (h, g) = flip_loop s d 1 (Suc i) (h1, snd (random g))"
    using i random_range[of g] by (subst flip_loop_step) (simp add: h1_def)
  have "take (Suc i) (h1 ! d) = take i (h ! d) @ [\<not> h ! s ! i]"
    using i Suc.prems(2) by (simp add: d1 take_Suc_conv_app_nth)
  moreover have "map Not (drop i (h ! s)) = (\<not> h ! s ! i) # map Not (drop (Suc i) (h ! s))"
    using i by (simp flip: Cons_nth_drop_Suc)
  ultimately show ?case unfolding unfold IH s1 by simp
qed

lemma copies_eq:
  "r < length h \<Longrightarrow> copies r n h = ([length h..<length h + n], h @ replicate n (h ! r))"
proof (induction n arbitrary: h)
  case 0
  then show ?case by simp
next
  case (Suc n)
  define h1 where "h1 = h @ [h ! r]"
  have r1: "r < length h1" "h1 ! r = h ! r" using Suc.prems by (simp_all add: h1_def nth_append)
  from Suc.IH[OF r1(1)]
  have "copies r n h1 = ([length h1..<length h1 + n], h1 @ replicate n (h ! r))"
    by (simp add: r1(2))
  then show ?case
    by (simp add: list_copy_def h1_def upt_conv_Cons replicate_app_Cons_same)
qed

lemma flip_each_frame:
  "length (fst (flip_each cs f (h, g))) = length h \<and>
   (\<forall>r. r \<notin> set cs \<longrightarrow> fst (flip_each cs f (h, g)) ! r = h ! r) \<and>
   (\<forall>r. length (fst (flip_each cs f (h, g)) ! r) = length (h ! r))"
proof (induction cs arbitrary: h g)
  case Nil
  then show ?case by simp
next
  case (Cons c cs)
  obtain h1 g1 where s1: "flip_loop c c f 0 (h, g) = (h1, g1)" by (cases "flip_loop c c f 0 (h, g)")
  from flip_loop_frame[of c c f 0 h g]
  have f1: "length h1 = length h" "\<And>r. r \<noteq> c \<Longrightarrow> h1 ! r = h ! r"
    "\<And>r. length (h1 ! r) = length (h ! r)"
    by (simp_all add: s1)
  from Cons.IH[of h1 g1] f1 show ?case by (simp add: s1)
qed

lemma flip_each_none: "fst (flip_each cs 0 (h, g)) = h"
proof (induction cs arbitrary: g)
  case Nil
  then show ?case by simp
next
  case (Cons c cs)
  obtain h1 g1 where s1: "flip_loop c c 0 0 (h, g) = (h1, g1)" by (cases "flip_loop c c 0 0 (h, g)")
  have "h1 = h" using flip_loop_none[of c c 0 h g] by (simp add: s1)
  then show ?case using Cons.IH[of g1] by (simp add: s1)
qed

lemma flip_each_all:
  assumes "distinct cs" "\<forall>c\<in>set cs. c < length h"
  shows "\<forall>c\<in>set cs. fst (flip_each cs 1 (h, g)) ! c = map Not (h ! c)"
  using assms
proof (induction cs arbitrary: h g)
  case Nil
  then show ?case by simp
next
  case (Cons c cs)
  obtain h1 g1 where s1: "flip_loop c c 1 0 (h, g) = (h1, g1)" by (cases "flip_loop c c 1 0 (h, g)")
  from flip_loop_frame[of c c 1 0 h g]
  have f1: "length h1 = length h" "\<And>r. r \<noteq> c \<Longrightarrow> h1 ! r = h ! r"
    by (simp_all add: s1)
  have c1: "h1 ! c = map Not (h ! c)"
    using flip_loop_all[of c h c 0 g] Cons.prems(2) by (simp add: s1)
  have "\<forall>c'\<in>set cs. fst (flip_each cs 1 (h1, g1)) ! c' = map Not (h1 ! c')"
    using Cons.prems f1(1) by (intro Cons.IH) simp_all
  moreover have "fst (flip_each cs 1 (h1, g1)) ! c = h1 ! c"
    using flip_each_frame[of cs 1 h1 g1] Cons.prems(1) by simp
  moreover have "h1 ! c' = h ! c'" if "c' \<in> set cs" for c'
    using that Cons.prems(1) by (intro f1(2)) auto
  ultimately show ?case using c1 by (simp add: s1)
qed


lemma create_classifiers_eq:
  "gt < length h \<Longrightarrow>
   create_classifiers gt n f (h, g) =
     ([length h..<length h + n],
      flip_each [length h..<length h + n] f (h @ replicate n (h ! gt), g))"
  by (simp add: create_classifiers_def copies_eq split: prod.splits)

lemma fresh_copy_nth:
  "length h \<le> c \<Longrightarrow> c < length h + n \<Longrightarrow> (h @ replicate n x) ! c = x"
  by (simp add: nth_append)

lemma deref_const:
  "\<forall>c\<in>set cs. h ! c = x \<Longrightarrow> deref h cs = replicate (length cs) x"
  unfolding deref_def by (induction cs) simp_all

lemma create_classifiers_all:
  assumes "gt < length h"
  shows "fst (snd (create_classifiers gt n 1 (h, g))) = h' \<Longrightarrow>
         deref h' (fst (create_classifiers gt n 1 (h, g))) = replicate n (map Not (h ! gt))"
proof -
  define L where "L = length h"
  define cs where "cs = [L..<L + n]"
  define h0 where "h0 = h @ replicate n (h ! gt)"
  assume "fst (snd (create_classifiers gt n 1 (h, g))) = h'"
  then have h': "h' = fst (flip_each cs 1 (h0, g))"
    by (simp add: create_classifiers_eq[OF assms] cs_def h0_def L_def)
  have "\<forall>c\<in>set cs. c < length h0" by (simp add: cs_def h0_def L_def)
  moreover have "distinct cs" by (simp add: cs_def)
  ultimately have "\<forall>c\<in>set cs. h' ! c = map Not (h0 ! c)"
    unfolding h' by (rule flip_each_all[rotated])
  moreover have "\<forall>c\<in>set cs. h0 ! c = h ! gt"
    by (simp add: cs_def h0_def L_def fresh_copy_nth)
  ultimately have "\<forall>c\<in>set cs. h' ! c = map Not (h ! gt)" by simp
  then have "deref h' cs = replicate (length cs) (map Not (h ! gt))" by (rule deref_const)
  then show ?thesis by (simp add: create_classifiers_eq[OF assms] cs_def L_def)
qed

lemma create_classifiers_none:
  assumes "gt < length h"
  shows "fst (snd (create_classifiers gt n 0 (h, g))) = h' \<Longrightarrow>
         deref h' (fst (create_classifiers gt n 0 (h, g))) = replicate n (h ! gt)"
proof -
  define L where "L = length h"
  define cs where "cs = [L..<L + n]"
  define h0 where "h0 = h @ replicate n (h ! gt)"
  assume "fst (snd (create_classifiers gt n 0 (h, g))) = h'"
  then have h': "h' = h0"
    using flip_each_none[of cs h0 g]
    by (simp add: create_classifiers_eq[OF assms] cs_def h0_def L_def)
  have "\<forall>c\<in>set cs. h0 ! c = h ! gt"
    by (simp add: cs_def h0_def L_def fresh_copy_nth)
  then have "deref h0 cs = replicate (length cs) (h ! gt)" by (rule deref_const)
  then show ?thesis by (simp add: create_classifiers_eq[OF assms] cs_def L_def h')
qed

lemma create_classifiers_frame:
  assumes "gt < length h" "fst (snd (create_classifiers gt n f (h, g))) = h'"
  shows "fst (create_classifiers gt n f (h, g)) = [length h..<length h + n]"
    and "length h' = length h + n"
    and "take (length h) h' = h"
    and "\<forall>c\<in>set [length h..<length h + n]. length (h' ! c) = length (h ! gt)"
proof -
  define L where "L = length h"
  define cs where "cs = [L..<L + n]"
  define h0 where "h0 = h @ replicate n (h ! gt)"
  have h': "h' = fst (flip_each cs f (h0, g))"
    using assms(2) by (simp add: create_classifiers_eq[OF assms(1)] cs_def h0_def L_def)
  from flip_each_frame[of cs f h0 g]
  have fr: "length h' = length h0" "\<And>r. r \<notin> set cs \<Longrightarrow> h' ! r = h0 ! r"
    "\<And>r. length (h' ! r) = length (h0 ! r)"
    by (simp_all add: h')
  show "fst (create_classifiers gt n f (h, g)) = [length h..<length h + n]"
    by (simp add: create_classifiers_eq[OF assms(1)])
  show len: "length h' = length h + n" using fr(1) by (simp add: h0_def)
  show "take (length h) h' = h"
  proof (rule nth_equalityI)
    show "length (take (length h) h') = length h" using len by simp
  next
    fix i assume "i < length (take (length h) h')"
    then have i: "i < length h" by simp
    then have "i \<notin> set cs" by (simp add: cs_def L_def)
    then have "h' ! i = h0 ! i" by (rule fr(2))
    then show "take (length h) h' ! i = h ! i" using i by (simp add: h0_def nth_append)
  qed
  show "\<forall>c\<in>set [length h..<length h + n]. length (h' ! c) = length (h ! gt)"
    using fr(3) by (simp add: h0_def fresh_copy_nth)
qed

lemma make_corr_loop_frame:
  assumes "b < length h"
  shows "\<exists>h' g'. make_corr_loop b f n corr (h, g) = (corr @ [length h..<length h + n], h', g') \<and>
           length h' = length h + n \<and> take (length h) h' = h \<and>
           (\<forall>c\<in>set [length h..<length h + n]. length (h' ! c) = length (h ! b))"
  using assms
proof (induction n arbitrary: corr h g)
  case 0
  then show ?case by simp
next
  case (Suc n)
  define L where "L = length h"
  define h0 where "h0 = h @ [h ! b]"
  obtain h1 g1 where s1: "flip_loop b L f 0 (h0, g) = (h1, g1)"
    by (cases "flip_loop b L f 0 (h0, g)")
  from flip_loop_frame[of b L f 0 h0 g]
  have fr: "length h1 = length h0" "\<And>r. r \<noteq> L \<Longrightarrow> h1 ! r = h0 ! r"
    "\<And>r. length (h1 ! r) = length (h0 ! r)"
    by (simp_all add: s1)
  have len1: "length h1 = Suc L" using fr(1) by (simp add: h0_def L_def)
  have b1: "b < length h1" using Suc.prems len1 by (simp add: L_def)
  have hb: "h1 ! b = h ! b" using Suc.prems fr(2)[of b] by (simp add: h0_def L_def nth_append)
  from Suc.IH[OF b1, of "corr @ [L]" g1] obtain h' g' where
    r: "make_corr_loop b f n (corr @ [L]) (h1, g1) = ((corr @ [L]) @ [length h1..<length h1 + n], h', g')"
      "length h' = length h1 + n" "take (length h1) h' = h1"
      "\<forall>c\<in>set [length h1..<length h1 + n]. length (h' ! c) = length (h1 ! b)"
    by blast
  have step: "make_corr_loop b f (Suc n) corr (h, g) = make_corr_loop b f n (corr @ [L]) (h1, g1)"
    using s1 by (simp add: list_copy_def h0_def L_def)
  have old: "h' ! i = h1 ! i" if "i < Suc L" for i
    using that r(3) len1 by (metis nth_take)
  have t: "take (length h) h' = h"
  proof (rule nth_equalityI)
    show "length (take (length h) h') = length h" using r(2) len1 by (simp add: L_def)
  next
    fix i assume "i < length (take (length h) h')"
    then have i: "i < L" by (simp add: L_def)
    then have "h' ! i = h1 ! i" using old by simp
    also have "\<dots> = h0 ! i" using i by (intro fr(2)) simp
    also have "\<dots> = h ! i" using i by (simp add: h0_def L_def nth_append)
    finally show "take (length h) h' ! i = h ! i" using i by (simp add: L_def)
  qed
  have newlen: "length (h' ! L) = length (h ! b)"
    using old[of L] fr(3)[of L] by (simp add: h0_def L_def)
  have lens: "\<forall>c\<in>set [length h..<length h + Suc n]. length (h' ! c) = length (h ! b)"
  proof
    fix c assume "c \<in> set [length h..<length h + Suc n]"
    then have "c = L \<or> c \<in> set [length h1..<length h1 + n]" using len1 by (auto simp: L_def)
    then show "length (h' ! c) = length (h ! b)" using newlen r(4) hb by auto
  qed
  have "(corr @ [L]) @ [length h1..<length h1 + n] = corr @ [length h..<length h + Suc n]"
    using len1 by (simp add: L_def upt_conv_Cons)
  then show ?case unfolding step using r(1,2) t lens len1 by (simp add: L_def)
qed

section \<open>Lengths\<close>

lemma fuzzy_ground_loop_length:
  "length (fst (fuzzy_ground_loop input out g)) = length out + length input"
  by (induction input arbitrary: out g) (simp_all split: prod.splits)

lemma column_sums_length:
  "\<forall>r\<in>set rows. length r = length acc \<Longrightarrow> length (foldl (map2 fadd) acc rows) = length acc"
  by (induction rows arbitrary: acc) simp_all

lemma do_majority_length:
  assumes "classifiers \<noteq> []" "\<forall>c\<in>set classifiers. length c = N"
  shows "\<exists>out. do_majority classifiers = Inr (Array out) \<and> length out = N"
proof -
  from assms(1) obtain row rows where cs: "classifiers = row # rows" by (cases classifiers) auto
  have row: "length row = N" and rows: "\<forall>c\<in>set rows. length c = length row"
    using assms(2) by (simp_all add: cs)
  have "list_all (\<lambda>r. length r = length row) rows" using rows by (simp add: list_all_iff)
  then show ?thesis
    using column_sums_length[OF rows] row
    by (simp add: do_majority_def np_mean_axis0_def cs)
qed

section \<open>Positions\<close>

lemma random_draw_eq: "random g = (draw g 0, \<lambda>n. g (Suc n))"
  by (simp add: random_def draw_def)

lemma flip_loop_contents:
  assumes "d < length h" "length (h ! d) = length (h ! s)"
    "\<forall>p. i \<le> p \<and> p < length (h ! s) \<longrightarrow> h ! d ! p = h ! s ! p"
  shows "snd (flip_loop s d f i (h, g)) = (\<lambda>n. g (n + (length (h ! s) - i))) \<and>
         (\<forall>p<length (h ! s). fst (flip_loop s d f i (h, g)) ! d ! p =
            (if p < i then h ! d ! p
             else if draw g (p - i) < f then \<not> h ! s ! p else h ! s ! p))"
  using assms
proof (induction "length (h ! s) - i" arbitrary: i h g)
  case 0
  then show ?case by (subst (1 2) flip_loop_step) simp
next
  case (Suc n)
  define N where "N = length (h ! s)"
  define h1 where
    "h1 = (if draw g 0 < f then h[d := (h ! d)[i := \<not> h ! s ! i]] else h)"
  define g1 where "g1 = (\<lambda>n. g (Suc n))"
  have i: "i < N" using Suc(2) by (simp add: N_def)
  have shape: "length (h1 ! r) = length (h ! r)" for r
    by (simp add: h1_def store_update_shape)
  have N1: "length (h1 ! s) = N" using shape by (simp add: N_def)
  have d1: "h1 ! d = (if draw g 0 < f then (h ! d)[i := \<not> h ! s ! i] else h ! d)"
    using Suc.prems(1) by (simp add: h1_def)
  have s1: "h1 ! s ! p = h ! s ! p" if "p \<noteq> i" for p
    using that Suc.prems(1) by (cases "s = d") (simp_all add: h1_def)
  have dp: "h1 ! d ! p = h ! d ! p" if "p \<noteq> i" for p
    using that by (simp add: d1)
  have unfold: "flip_loop s d f i (h, g) = flip_loop s d f (Suc i) (h1, g1)"
    using i by (subst flip_loop_step) (simp add: h1_def g1_def N_def random_draw_eq)
  have "n = length (h1 ! s) - Suc i" using Suc(2) shape by simp
  moreover have "d < length h1" using Suc.prems(1) by (simp add: h1_def)
  moreover have "length (h1 ! d) = length (h1 ! s)" using Suc.prems(2) shape by simp
  moreover have "\<forall>p. Suc i \<le> p \<and> p < length (h1 ! s) \<longrightarrow> h1 ! d ! p = h1 ! s ! p"
    using Suc.prems(3) s1 dp N1 by (simp add: N_def)
  ultimately have IH:
    "snd (flip_loop s d f (Suc i) (h1, g1)) = (\<lambda>n. g1 (n + (length (h1 ! s) - Suc i)))"
    "\<forall>p<length (h1 ! s). fst (flip_loop s d f (Suc i) (h1, g1)) ! d ! p =
        (if p < Suc i then h1 ! d ! p
         else if draw g1 (p - Suc i) < f then \<not> h1 ! s ! p else h1 ! s ! p)"
    using Suc(1)[of h1 "Suc i" g1] by simp_all
  have gen: "snd (flip_loop s d f i (h, g)) = (\<lambda>n. g (n + (length (h ! s) - i)))"
  proof -
    have e: "Suc (n' + (N - Suc i)) = n' + (N - i)" for n' using i by arith
    have "g1 (n' + (N - Suc i)) = g (n' + (N - i))" for n'
      unfolding g1_def by (simp only: e)
    then have "(\<lambda>n. g1 (n + (N - Suc i))) = (\<lambda>n. g (n + (N - i)))" by (intro ext)
    then show ?thesis unfolding unfold IH(1) N1 N_def .
  qed
  have "fst (flip_loop s d f i (h, g)) ! d ! p =
            (if p < i then h ! d ! p
             else if draw g (p - i) < f then \<not> h ! s ! p else h ! s ! p)"
    if p: "p < length (h ! s)" for p
  proof -
    have pN: "p < length (h1 ! s)" using p N1 by (simp add: N_def)
    consider "p < i" | "p = i" | "i < p" by linarith
    then show ?thesis
    proof cases
      case 1
      then show ?thesis unfolding unfold using IH(2) pN dp[of p] by simp
    next
      case 2
      have "h ! d ! i = h ! s ! i" using Suc.prems(3) i by (simp add: N_def)
      moreover have "i < length (h ! d)" using i Suc.prems(2) by (simp add: N_def)
      ultimately have "h1 ! d ! i = (if draw g 0 < f then \<not> h ! s ! i else h ! s ! i)"
        by (simp add: d1)
      then show ?thesis unfolding unfold using IH(2) pN 2 by simp
    next
      case 3
      have "draw g1 (p - Suc i) = draw g (p - i)"
        using 3 by (simp add: draw_def g1_def Suc_diff_Suc)
      then show ?thesis unfolding unfold using IH(2) pN 3 s1[of p] by simp
    qed
  qed
  with gen show ?case by blast
qed


lemma draw_shift: "draw (\<lambda>n. g (n + k)) m = draw g (m + k)"
  by (simp add: draw_def)

lemma flip_each_contents:
  assumes "distinct cs" "\<forall>c\<in>set cs. c < length h \<and> length (h ! c) = N"
  shows "snd (flip_each cs f (h, g)) = (\<lambda>n. g (n + length cs * N)) \<and>
         (\<forall>j<length cs. \<forall>p<N. fst (flip_each cs f (h, g)) ! (cs ! j) ! p =
            (if draw g (j * N + p) < f then \<not> h ! (cs ! j) ! p else h ! (cs ! j) ! p))"
  using assms
proof (induction cs arbitrary: h g)
  case Nil
  then show ?case by simp
next
  case (Cons c cs)
  obtain h1 g1 where s1: "flip_loop c c f 0 (h, g) = (h1, g1)" by (cases "flip_loop c c f 0 (h, g)")
  have c: "c < length h" "length (h ! c) = N" using Cons.prems(2) by simp_all
  from flip_loop_contents[of c h c 0 f g] c
  have g1: "g1 = (\<lambda>n. g (n + N))"
    and h1c: "\<forall>p<N. h1 ! c ! p = (if draw g p < f then \<not> h ! c ! p else h ! c ! p)"
    by (simp_all add: s1)
  from flip_loop_frame[of c c f 0 h g]
  have fr: "length h1 = length h" "\<And>r. r \<noteq> c \<Longrightarrow> h1 ! r = h ! r"
    "\<And>r. length (h1 ! r) = length (h ! r)"
    by (simp_all add: s1)
  have "distinct cs" using Cons.prems(1) by simp
  moreover have "\<forall>c'\<in>set cs. c' < length h1 \<and> length (h1 ! c') = N"
    using Cons.prems(2) fr(1,3) by simp
  ultimately have IH: "snd (flip_each cs f (h1, g1)) = (\<lambda>n. g1 (n + length cs * N))"
    "\<forall>j<length cs. \<forall>p<N. fst (flip_each cs f (h1, g1)) ! (cs ! j) ! p =
        (if draw g1 (j * N + p) < f then \<not> h1 ! (cs ! j) ! p else h1 ! (cs ! j) ! p)"
    using Cons.IH[of h1 g1] by simp_all
  have step: "flip_each (c # cs) f (h, g) = flip_each cs f (h1, g1)" by (simp add: s1)
  have gen: "snd (flip_each (c # cs) f (h, g)) = (\<lambda>n. g (n + length (c # cs) * N))"
    unfolding step IH(1) by (simp add: g1 ac_simps)
  have "fst (flip_each (c # cs) f (h, g)) ! ((c # cs) ! j) ! p =
      (if draw g (j * N + p) < f then \<not> h ! ((c # cs) ! j) ! p else h ! ((c # cs) ! j) ! p)"
    if j: "j < length (c # cs)" and p: "p < N" for j p
  proof (cases j)
    case 0
    have "c \<notin> set cs" using Cons.prems(1) by simp
    then have "fst (flip_each cs f (h1, g1)) ! c = h1 ! c"
      using flip_each_frame[of cs f h1 g1] by simp
    then show ?thesis unfolding step using h1c p 0 by simp
  next
    case (Suc j')
    then have j': "j' < length cs" using j by simp
    then have "cs ! j' \<noteq> c" using Cons.prems(1) by auto
    then have old: "h1 ! (cs ! j') = h ! (cs ! j')" by (rule fr(2))
    have "j' * N + p + N = Suc j' * N + p" by simp
    then have "draw g1 (j' * N + p) = draw g (Suc j' * N + p)"
      unfolding g1 draw_shift by (simp only:)
    then show ?thesis unfolding step using IH(2) j' p old Suc by simp
  qed
  with gen show ?case by blast
qed

lemma create_classifiers_contents:
  assumes "gt < length h" "create_classifiers gt n f (h, g) = (cs, h', g')"
  shows "\<forall>j<n. \<forall>p<length (h ! gt). deref h' cs ! j ! p =
           (if draw g (j * length (h ! gt) + p) < f then \<not> h ! gt ! p else h ! gt ! p)"
proof -
  define L where "L = length h"
  define N where "N = length (h ! gt)"
  define cs0 where "cs0 = [L..<L + n]"
  define h0 where "h0 = h @ replicate n (h ! gt)"
  have cs: "cs = cs0" and h': "h' = fst (flip_each cs0 f (h0, g))"
    using assms(2) by (auto simp: create_classifiers_eq[OF assms(1)] cs0_def h0_def L_def)
  have fresh: "h0 ! c = h ! gt" if "c \<in> set cs0" for c
    using that by (simp add: cs0_def h0_def L_def fresh_copy_nth)
  have "distinct cs0" by (simp add: cs0_def)
  moreover have "\<forall>c\<in>set cs0. c < length h0 \<and> length (h0 ! c) = N"
    using fresh by (simp add: cs0_def h0_def L_def N_def)
  ultimately have "\<forall>j<length cs0. \<forall>p<N. h' ! (cs0 ! j) ! p =
      (if draw g (j * N + p) < f then \<not> h0 ! (cs0 ! j) ! p else h0 ! (cs0 ! j) ! p)"
    unfolding h' using flip_each_contents[of cs0 h0 N f g] by blast
  moreover have "h0 ! (cs0 ! j) = h ! gt" if "j < n" for j
    using that by (intro fresh) (simp add: cs0_def)
  moreover have "deref h' cs ! j = h' ! (cs0 ! j)" if "j < n" for j
    using that by (simp add: deref_def cs cs0_def)
  ultimately show ?thesis by (simp add: N_def cs0_def)
qed

lemma make_corr_loop_contents:
  assumes "b < length h"
  shows "\<exists>h' g'. make_corr_loop b f n corr (h, g) = (corr @ [length h..<length h + n], h', g') \<and>
           length h' = length h + n \<and> take (length h) h' = h \<and>
           (\<forall>j<n. \<forall>p<length (h ! b). h' ! (length h + j) ! p =
              (if draw g (j * length (h ! b) + p) < f then \<not> h ! b ! p else h ! b ! p))"
  using assms
proof (induction n arbitrary: corr h g)
  case 0
  then show ?case by simp
next
  case (Suc n)
  define L where "L = length h"
  define N where "N = length (h ! b)"
  define h0 where "h0 = h @ [h ! b]"
  obtain h1 g1 where s1: "flip_loop b L f 0 (h0, g) = (h1, g1)"
    by (cases "flip_loop b L f 0 (h0, g)")
  have b0: "h0 ! b = h ! b" "h0 ! L = h ! b" "L < length h0"
    using Suc.prems by (simp_all add: h0_def L_def nth_append)
  from flip_loop_contents[of L h0 b 0 f g] b0
  have g1: "g1 = (\<lambda>n. g (n + N))"
    and new: "\<forall>p<N. h1 ! L ! p = (if draw g p < f then \<not> h ! b ! p else h ! b ! p)"
    by (simp_all add: s1 N_def)
  from flip_loop_frame[of b L f 0 h0 g]
  have fr: "length h1 = length h0" "\<And>r. r \<noteq> L \<Longrightarrow> h1 ! r = h0 ! r"
    by (simp_all add: s1)
  have len1: "length h1 = Suc L" using fr(1) by (simp add: h0_def L_def)
  have b1: "b < length h1" using Suc.prems len1 by (simp add: L_def)
  have hb: "h1 ! b = h ! b" using Suc.prems fr(2)[of b] b0(1) by (simp add: L_def)
  from Suc.IH[OF b1, of "corr @ [L]" g1] obtain h' g' where
    r: "make_corr_loop b f n (corr @ [L]) (h1, g1) = ((corr @ [L]) @ [length h1..<length h1 + n], h', g')"
      "length h' = length h1 + n" "take (length h1) h' = h1"
      "\<forall>j<n. \<forall>p<length (h1 ! b). h' ! (length h1 + j) ! p =
          (if draw g1 (j * length (h1 ! b) + p) < f then \<not> h1 ! b ! p else h1 ! b ! p)"
    by blast
  have step: "make_corr_loop b f (Suc n) corr (h, g) = make_corr_loop b f n (corr @ [L]) (h1, g1)"
    using s1 by (simp add: list_copy_def h0_def L_def)
  have old: "h' ! i = h1 ! i" if "i < Suc L" for i
    using that r(3) len1 by (metis nth_take)
  have t: "take (length h) h' = h"
  proof (rule nth_equalityI)
    show "length (take (length h) h') = length h" using r(2) len1 by (simp add: L_def)
  next
    fix i assume "i < length (take (length h) h')"
    then have i: "i < L" by (simp add: L_def)
    then have "h' ! i = h1 ! i" using old by simp
    also have "\<dots> = h0 ! i" using i by (intro fr(2)) simp
    also have "\<dots> = h ! i" using i by (simp add: h0_def L_def nth_append)
    finally show "take (length h) h' ! i = h ! i" using i by (simp add: L_def)
  qed
  have cont: "h' ! (length h + j) ! p =
      (if draw g (j * length (h ! b) + p) < f then \<not> h ! b ! p else h ! b ! p)"
    if j: "j < Suc n" and p: "p < length (h ! b)" for j p
  proof (cases j)
    case 0
    then show ?thesis using old[of L] new p by (simp add: L_def N_def)
  next
    case (Suc j')
    then have j': "j' < n" using j by simp
    have "j' * N + p + N = Suc j' * N + p" by simp
    then have "draw g1 (j' * N + p) = draw g (Suc j' * N + p)"
      unfolding g1 draw_shift by (simp only:)
    moreover have "length h1 + j' = length h + Suc j'" using len1 by (simp add: L_def)
    ultimately show ?thesis using r(4) j' p hb Suc by (simp add: N_def)
  qed
  have "(corr @ [L]) @ [length h1..<length h1 + n] = corr @ [length h..<length h + Suc n]"
    using len1 by (simp add: L_def upt_conv_Cons)
  then show ?case unfolding step using r(1,2) t cont len1 by (simp add: L_def)
qed

lemma fuzzy_ground_loop_contents:
  "fst (fuzzy_ground_loop input out g) =
     out @ map (\<lambda>i. if input ! i then fdiv (fadd (draw g i) 1) 2 else fdiv (draw g i) 2)
             [0..<length input]"
proof (induction input arbitrary: out g)
  case Nil
  then show ?case by simp
next
  case (Cons b rest)
  define g1 where "g1 = (\<lambda>n. g (Suc n))"
  have d: "draw g1 i = draw g (Suc i)" for i by (simp add: draw_def g1_def)
  have "map (\<lambda>i. if (b # rest) ! i then fdiv (fadd (draw g i) 1) 2 else fdiv (draw g i) 2)
          [0..<length (b # rest)] =
        (if b then fdiv (fadd (draw g 0) 1) 2 else fdiv (draw g 0) 2) #
        map (\<lambda>i. if rest ! i then fdiv (fadd (draw g1 i) 1) 2 else fdiv (draw g1 i) 2)
          [0..<length rest]"
  proof -
    have "[0..<length (b # rest)] = 0 # map Suc [0..<length rest]"
      by (simp add: upt_conv_Cons map_Suc_upt del: upt_Suc)
    then show ?thesis by (simp add: comp_def d del: upt_Suc)
  qed
  then show ?case
    using Cons.IH[of "out @ [if b then fdiv (fadd (draw g 0) 1) 2 else fdiv (draw g 0) 2]" g1]
    by (simp add: random_draw_eq g1_def)
qed

lemma column_sums_nth:
  "\<forall>r\<in>set rows. length r = length acc \<Longrightarrow> i < length acc \<Longrightarrow>
   foldl (map2 fadd) acc rows ! i = foldl fadd (acc ! i) (map (\<lambda>c. c ! i) rows)"
proof (induction rows arbitrary: acc)
  case Nil
  then show ?case by simp
next
  case (Cons r rows)
  have "\<forall>r'\<in>set rows. length r' = length (map2 fadd acc r)" using Cons.prems(1) by simp
  moreover have "i < length (map2 fadd acc r)" using Cons.prems by simp
  ultimately have "foldl (map2 fadd) (map2 fadd acc r) rows ! i =
      foldl fadd (map2 fadd acc r ! i) (map (\<lambda>c. c ! i) rows)"
    by (rule Cons.IH)
  moreover have "map2 fadd acc r ! i = fadd (acc ! i) (r ! i)" using Cons.prems by simp
  ultimately show ?case by simp
qed

lemma do_majority_columns:
  assumes "ensemble \<noteq> []" "\<forall>c\<in>set ensemble. length c = N"
  shows "\<exists>out. do_majority ensemble = Inr (Array out) \<and> length out = N \<and>
           (\<forall>i<N. out ! i =
              rint (fdiv (if N = 1 then pairwise_sum (map (\<lambda>c. c ! i) ensemble)
                          else foldl fadd (hd ensemble ! i) (map (\<lambda>c. c ! i) (tl ensemble)))
                         (fl (of_nat (length ensemble)))))"
proof -
  from assms(1) obtain row rows where cs: "ensemble = row # rows" by (cases ensemble) auto
  have row: "length row = N" and rows: "\<forall>c\<in>set rows. length c = length row"
    using assms(2) by (simp_all add: cs)
  have shape: "list_all (\<lambda>r. length r = length row) rows" using rows by (simp add: list_all_iff)
  show ?thesis
  proof (cases "N = 1")
    case True
    have "map hd ensemble = map (\<lambda>c. c ! 0) ensemble"
    proof (rule map_cong[OF refl])
      fix c assume "c \<in> set ensemble"
      then have "length c = 1" using assms(2) True by simp
      then show "hd c = c ! 0" by (cases c) auto
    qed
    then have "pairwise_sum (map hd (row # rows)) = pairwise_sum (map (\<lambda>c. c ! 0) ensemble)"
      by (simp only: cs)
    then show ?thesis
      using shape row True
      by (simp add: do_majority_def np_mean_axis0_def cs del: list.map)
  next
    case False
    have len: "length (foldl (map2 fadd) row rows) = N"
      using column_sums_length[OF rows] row by simp
    have "foldl (map2 fadd) row rows ! i = foldl fadd (row ! i) (map (\<lambda>c. c ! i) rows)"
      if "i < N" for i
      using that rows row by (intro column_sums_nth) simp_all
    then show ?thesis
      using shape row False len
      by (simp add: do_majority_def np_mean_axis0_def cs)
  qed
qed

section \<open>Claims about the synthesizers\<close>

text \<open>
  C6. With \<open>flip_ratio = 1\<close> every draw is below the ratio, so every bit is flipped:
  for every ground truth, every count and every state of the generator, each classifier
  \<^verbatim>\<open>create_classifiers\<close> returns holds the logical complement of the ground truth.
\<close>

theorem create_classifiers_flip_one_complements:
  "ground_truth < length h \<Longrightarrow>
   (case create_classifiers ground_truth num_classifiers 1 (h, g) of
      (classifiers, h', g') \<Rightarrow>
        deref h' classifiers = replicate num_classifiers (map Not (h ! ground_truth)))"
  using create_classifiers_all[of ground_truth h num_classifiers g]
  by (cases "create_classifiers ground_truth num_classifiers 1 (h, g)") simp

theorem create_classifiers_flip_one_complements_witness:
  "(0::nat) < length [[True, False, True]] \<and>
   (case create_classifiers 0 2 1 ([[True, False, True]], \<lambda>n. of_nat n * 977) of
      (classifiers, h', g') \<Rightarrow>
        deref h' classifiers = [[False, True, False], [False, True, False]])"
  using create_classifiers_flip_one_complements
          [of 0 "[[True, False, True]]" 2 "\<lambda>n. of_nat n * 977"]
  by (simp add: numeral_2_eq_2)

text \<open>
  C7. With \<open>flip_ratio = 0\<close> no draw is below the ratio, so no bit is flipped: for
  every ground truth, every count and every state of the generator, each classifier
  \<^verbatim>\<open>create_classifiers\<close> returns is equal to the ground truth at every position.
\<close>

theorem create_classifiers_flip_zero_copies:
  "ground_truth < length h \<Longrightarrow>
   (case create_classifiers ground_truth num_classifiers 0 (h, g) of
      (classifiers, h', g') \<Rightarrow>
        deref h' classifiers = replicate num_classifiers (h ! ground_truth))"
  using create_classifiers_none[of ground_truth h num_classifiers g]
  by (cases "create_classifiers ground_truth num_classifiers 0 (h, g)") simp

theorem create_classifiers_flip_zero_copies_witness:
  "(0::nat) < length [[True, False, True]] \<and>
   (case create_classifiers 0 2 0 ([[True, False, True]], \<lambda>n. of_nat n * 977) of
      (classifiers, h', g') \<Rightarrow>
        deref h' classifiers = [[True, False, True], [True, False, True]])"
  using create_classifiers_flip_zero_copies
          [of 0 "[[True, False, True]]" 2 "\<lambda>n. of_nat n * 977"]
  by (simp add: numeral_2_eq_2)

text \<open>
  C8, as stated: every experiment ends in a prediction of the shared length \<open>N\<close>. An
  experiment with \<open>count = 0\<close> has an empty ensemble, and on it \<^verbatim>\<open>do_majority\<close>
  and \<^verbatim>\<open>fuzzy_ensemble\<close> return NaN, not a sequence of the ground truth's length 3.
\<close>

theorem empty_experiment_has_no_prediction:
  "fst (create_classifiers 0 0 (2 / 5) ([[True, False, True]], \<lambda>n. 0)) = [] \<and>
   do_majority (map (map as_float)
      (deref (fst (snd (create_classifiers 0 0 (2 / 5) ([[True, False, True]], \<lambda>n. 0))))
             (fst (create_classifiers 0 0 (2 / 5) ([[True, False, True]], \<lambda>n. 0))))) = Inr NaN \<and>
   fuzzy_ensemble (map (map as_float)
      (deref (fst (snd (create_classifiers 0 0 (2 / 5) ([[True, False, True]], \<lambda>n. 0))))
             (fst (create_classifiers 0 0 (2 / 5) ([[True, False, True]], \<lambda>n. 0))))) = Inr NaN"
  by (simp add: create_classifiers_def deref_def do_majority_def fuzzy_ensemble_def
        np_mean_axis0_def)

text \<open>
  C8, amended: lengths and positions are preserved along an experiment.
  \<^verbatim>\<open>create_classifiers\<close> and \<^verbatim>\<open>make_corr_classifiers\<close> return \<open>count\<close>
  sequences, each as long as the sequence they were derived from, and position \<open>i\<close>
  of the \<open>j\<close>-th sequence is position \<open>i\<close> of that sequence, negated exactly when the
  draw made for it, the \<open>(j * N + i)\<close>-th, is below the flip ratio.
  \<^verbatim>\<open>fuzzy_ground\<close> returns as many values as it was given bits, the \<open>i\<close>-th
  computed from the \<open>i\<close>-th bit and the \<open>i\<close>-th draw. For a non-empty ensemble of
  sequences of length \<open>N\<close>, \<^verbatim>\<open>do_majority\<close> and \<^verbatim>\<open>fuzzy_ensemble\<close> return the
  same array of length \<open>N\<close>, whose value at \<open>i\<close> is the rounded mean of the values the
  classifiers hold at \<open>i\<close>.
\<close>

theorem sequences_keep_length_and_position:
  "(ground_truth < length h \<longrightarrow>
      (case create_classifiers ground_truth count flip_ratio (h, g) of
         (classifiers, h', g') \<Rightarrow>
           length classifiers = count \<and>
           (\<forall>j<count.
              length (deref h' classifiers ! j) = length (h ! ground_truth) \<and>
              (\<forall>i<length (h ! ground_truth).
                 deref h' classifiers ! j ! i =
                   (if draw g (j * length (h ! ground_truth) + i) < flip_ratio
                    then \<not> h ! ground_truth ! i else h ! ground_truth ! i))))) \<and>
   (base_sys < length h \<longrightarrow>
      (case make_corr_classifiers base_sys flip count (h, g) of
         (corr_classifiers, h', g') \<Rightarrow>
           length corr_classifiers = count \<and>
           (\<forall>j<count.
              length (deref h' corr_classifiers ! j) = length (h ! base_sys) \<and>
              (\<forall>i<length (h ! base_sys).
                 deref h' corr_classifiers ! j ! i =
                   (if draw g (j * length (h ! base_sys) + i) < flip
                    then \<not> h ! base_sys ! i else h ! base_sys ! i))))) \<and>
   (length (fst (fuzzy_ground input g)) = length input \<and>
    (\<forall>i<length input.
       fst (fuzzy_ground input g) ! i =
         (if input ! i then fdiv (fadd (draw g i) 1) 2 else fdiv (draw g i) 2))) \<and>
   (ensemble \<noteq> [] \<and> (\<forall>c\<in>set ensemble. length c = N) \<longrightarrow>
      (\<exists>out. do_majority ensemble = Inr (Array out) \<and>
             fuzzy_ensemble ensemble = Inr (Array out) \<and>
             length out = N \<and>
             (\<forall>i<N. out ! i =
                rint (fdiv (if N = 1 then pairwise_sum (map (\<lambda>c. c ! i) ensemble)
                            else foldl fadd (hd ensemble ! i) (map (\<lambda>c. c ! i) (tl ensemble)))
                           (fl (of_nat (length ensemble)))))))"
proof (intro conjI impI)
  assume gt: "ground_truth < length h"
  obtain cs h' g' where
    r: "create_classifiers ground_truth count flip_ratio (h, g) = (cs, h', g')"
    by (cases "create_classifiers ground_truth count flip_ratio (h, g)")
  then have h': "fst (snd (create_classifiers ground_truth count flip_ratio (h, g))) = h'"
    by simp
  from create_classifiers_frame(1)[OF gt h'] r have cs: "cs = [length h..<length h + count]"
    by simp
  from create_classifiers_frame(4)[OF gt h']
  have len: "\<forall>j<count. length (deref h' cs ! j) = length (h ! ground_truth)"
    by (simp add: cs deref_def)
  from create_classifiers_contents[OF gt r] len
  show "case create_classifiers ground_truth count flip_ratio (h, g) of
      (classifiers, h', g') \<Rightarrow> length classifiers = count \<and>
        (\<forall>j<count. length (deref h' classifiers ! j) = length (h ! ground_truth) \<and>
           (\<forall>i<length (h ! ground_truth). deref h' classifiers ! j ! i =
              (if draw g (j * length (h ! ground_truth) + i) < flip_ratio
               then \<not> h ! ground_truth ! i else h ! ground_truth ! i)))"
    by (simp add: r cs)
next
  assume b: "base_sys < length h"
  from make_corr_loop_contents[OF b, of flip count "[]" g] obtain h' g' where
    r: "make_corr_classifiers base_sys flip count (h, g) = ([length h..<length h + count], h', g')"
    and c: "\<forall>j<count. \<forall>p<length (h ! base_sys). h' ! (length h + j) ! p =
        (if draw g (j * length (h ! base_sys) + p) < flip then \<not> h ! base_sys ! p
         else h ! base_sys ! p)"
    by (auto simp: make_corr_classifiers_def)
  from make_corr_loop_frame[OF b, of flip count "[]" g] r
  have l: "\<forall>c\<in>set [length h..<length h + count]. length (h' ! c) = length (h ! base_sys)"
    by (auto simp: make_corr_classifiers_def)
  have d: "deref h' [length h..<length h + count] ! j = h' ! (length h + j)" if "j < count" for j
    using that by (simp add: deref_def)
  from c l d
  show "case make_corr_classifiers base_sys flip count (h, g) of
      (corr_classifiers, h', g') \<Rightarrow> length corr_classifiers = count \<and>
        (\<forall>j<count. length (deref h' corr_classifiers ! j) = length (h ! base_sys) \<and>
           (\<forall>i<length (h ! base_sys). deref h' corr_classifiers ! j ! i =
              (if draw g (j * length (h ! base_sys) + i) < flip
               then \<not> h ! base_sys ! i else h ! base_sys ! i)))"
    by (simp add: r)
next
  show "length (fst (fuzzy_ground input g)) = length input"
    by (simp add: fuzzy_ground_def fuzzy_ground_loop_length)
next
  show "\<forall>i<length input. fst (fuzzy_ground input g) ! i =
      (if input ! i then fdiv (fadd (draw g i) 1) 2 else fdiv (draw g i) 2)"
    by (simp add: fuzzy_ground_def fuzzy_ground_loop_contents)
next
  assume a: "ensemble \<noteq> [] \<and> (\<forall>c\<in>set ensemble. length c = N)"
  then obtain out where
    o: "do_majority ensemble = Inr (Array out)" "length out = N"
      "\<forall>i<N. out ! i =
          rint (fdiv (if N = 1 then pairwise_sum (map (\<lambda>c. c ! i) ensemble)
                      else foldl fadd (hd ensemble ! i) (map (\<lambda>c. c ! i) (tl ensemble)))
                     (fl (of_nat (length ensemble))))"
    using do_majority_columns[of ensemble N] by blast
  from o(1) have "fuzzy_ensemble ensemble = Inr (Array out)"
    by (auto simp: fuzzy_ensemble_def do_majority_def split: sum.splits)
  with o show "\<exists>out. do_majority ensemble = Inr (Array out) \<and>
      fuzzy_ensemble ensemble = Inr (Array out) \<and> length out = N \<and>
      (\<forall>i<N. out ! i =
          rint (fdiv (if N = 1 then pairwise_sum (map (\<lambda>c. c ! i) ensemble)
                      else foldl fadd (hd ensemble ! i) (map (\<lambda>c. c ! i) (tl ensemble)))
                     (fl (of_nat (length ensemble)))))"
    by blast
qed

theorem sequences_keep_length_and_position_witness:
  "((0::nat) < length [[True, False, True]] \<and>
      (case create_classifiers 0 2 (2 / 5) ([[True, False, True]], \<lambda>n. of_nat n * 2 ^ 61) of
         (classifiers, h', g') \<Rightarrow>
           length classifiers = 2 \<and>
           deref h' classifiers ! 0 = [False, True, False] \<and>
           deref h' classifiers ! 1 = [False, False, True])) \<and>
   ((0::nat) < length [[True, False, True]] \<and>
      (case make_corr_classifiers 0 (1 / 10) 2 ([[True, False, True]], \<lambda>n. of_nat n * 2 ^ 61) of
         (corr_classifiers, h', g') \<Rightarrow>
           length corr_classifiers = 2 \<and>
           deref h' corr_classifiers ! 0 = [False, False, True] \<and>
           deref h' corr_classifiers ! 1 = [True, False, True])) \<and>
   fst (fuzzy_ground [True, False, True] (\<lambda>n. of_nat n * 2 ^ 61)) = [1 / 2, 1 / 16, 5 / 8] \<and>
   ([[1 / 4, 1, 0], [1 / 2, 1, 1], [1 / 2, 0, 1 :: rat]] \<noteq> [] \<and>
    map length [[1 / 4, 1, 0], [1 / 2, 1, 1], [1 / 2, 0, 1 :: rat]] = [3, 3, 3] \<and>
    do_majority [[1 / 4, 1, 0], [1 / 2, 1, 1], [1 / 2, 0, 1]] = Inr (Array [0, 1, 1]) \<and>
    fuzzy_ensemble [[1 / 4, 1, 0], [1 / 2, 1, 1], [1 / 2, 0, 1]] = Inr (Array [0, 1, 1]))"
proof -
  define g :: bit_generator where "g = (\<lambda>n. of_nat n * 2 ^ 61)"
  define ens :: "float64 list list" where
    "ens = [[1 / 4, 1, 0], [1 / 2, 1, 1], [1 / 2, 0, 1]]"
  note w = sequences_keep_length_and_position
             [where ground_truth = 0 and h = "[[True, False, True]]" and count = 2
                and flip_ratio = "2 / 5" and g = g and base_sys = 0 and flip = "1 / 10"
                and input = "[True, False, True]" and ensemble = ens and N = 3]
  have three: "xs = [xs ! 0, xs ! 1, xs ! 2]" if "length xs = 3" for xs :: "'a list"
    using that by (intro nth_equalityI) (auto simp: nth_Cons' less_Suc_eq numeral_eq_Suc)
  have dr: "draw g 0 = 0" "draw g 1 = 1 / 8" "draw g 2 = 1 / 4" "draw g 3 = 3 / 8"
    "draw g 4 = 1 / 2" "draw g 5 = 5 / 8"
    unfolding g_def by code_simp+
  have drS: "draw g (Suc 0) = 1 / 8" using dr(2) by simp
  have N3: "length ([[True, False, True]] ! 0) = 3" by simp
  have A: "case create_classifiers 0 2 (2 / 5) ([[True, False, True]], g) of
      (classifiers, h', g') \<Rightarrow> length classifiers = 2 \<and>
        deref h' classifiers ! 0 = [False, True, False] \<and>
        deref h' classifiers ! 1 = [False, False, True]"
  proof -
    obtain cs h' g' where r: "create_classifiers 0 2 (2 / 5) ([[True, False, True]], g) = (cs, h', g')"
      by (cases "create_classifiers 0 2 (2 / 5) ([[True, False, True]], g)")
    have P: "length cs = 2 \<and>
        (\<forall>j<2. length (deref h' cs ! j) = length ([[True, False, True]] ! 0) \<and>
           (\<forall>i<length ([[True, False, True]] ! 0). deref h' cs ! j ! i =
              (if draw g (j * length ([[True, False, True]] ! 0) + i) < 2 / 5
               then \<not> [[True, False, True]] ! 0 ! i else [[True, False, True]] ! 0 ! i)))"
      using w[THEN conjunct1] r by simp
    note P' = P[unfolded N3]
    have l: "length (deref h' cs ! j) = 3" if "j < 2" for j using P' that by blast
    have e: "deref h' cs ! j ! i =
        (if draw g k < 2 / 5 then \<not> [True, False, True] ! i else [True, False, True] ! i)"
      if "j < 2" "i < 3" "k = j * 3 + i" for j i k
      using P' that by auto
    have "deref h' cs ! 0 ! 0 = False" using e[of 0 0 0] by (simp add: dr drS)
    moreover have "deref h' cs ! 0 ! 1 = True" using e[of 0 1 1] by (simp add: dr drS)
    moreover have "deref h' cs ! 0 ! 2 = False" using e[of 0 2 2] by (simp add: dr drS)
    ultimately have c0: "deref h' cs ! 0 = [False, True, False]"
      using three[OF l[of 0]] by simp
    have "deref h' cs ! 1 ! 0 = False" using e[of 1 0 3] by (simp add: dr drS)
    moreover have "deref h' cs ! 1 ! 1 = False" using e[of 1 1 4] by (simp add: dr drS)
    moreover have "deref h' cs ! 1 ! 2 = True" using e[of 1 2 5] by (simp add: dr drS)
    ultimately have c1: "deref h' cs ! 1 = [False, False, True]"
      using three[OF l[of 1]] by simp
    from c0 c1 P show ?thesis by (simp add: r)
  qed
  have B: "case make_corr_classifiers 0 (1 / 10) 2 ([[True, False, True]], g) of
      (corr_classifiers, h', g') \<Rightarrow> length corr_classifiers = 2 \<and>
        deref h' corr_classifiers ! 0 = [False, False, True] \<and>
        deref h' corr_classifiers ! 1 = [True, False, True]"
  proof -
    obtain cs h' g' where r: "make_corr_classifiers 0 (1 / 10) 2 ([[True, False, True]], g) = (cs, h', g')"
      by (cases "make_corr_classifiers 0 (1 / 10) 2 ([[True, False, True]], g)")
    have P: "length cs = 2 \<and>
        (\<forall>j<2. length (deref h' cs ! j) = length ([[True, False, True]] ! 0) \<and>
           (\<forall>i<length ([[True, False, True]] ! 0). deref h' cs ! j ! i =
              (if draw g (j * length ([[True, False, True]] ! 0) + i) < 1 / 10
               then \<not> [[True, False, True]] ! 0 ! i else [[True, False, True]] ! 0 ! i)))"
      using w[THEN conjunct2, THEN conjunct1] r by simp
    note P' = P[unfolded N3]
    have l: "length (deref h' cs ! j) = 3" if "j < 2" for j using P' that by blast
    have e: "deref h' cs ! j ! i =
        (if draw g k < 1 / 10 then \<not> [True, False, True] ! i else [True, False, True] ! i)"
      if "j < 2" "i < 3" "k = j * 3 + i" for j i k
      using P' that by auto
    have "deref h' cs ! 0 ! 0 = False" using e[of 0 0 0] by (simp add: dr drS)
    moreover have "deref h' cs ! 0 ! 1 = False" using e[of 0 1 1] by (simp add: dr drS)
    moreover have "deref h' cs ! 0 ! 2 = True" using e[of 0 2 2] by (simp add: dr drS)
    ultimately have c0: "deref h' cs ! 0 = [False, False, True]"
      using three[OF l[of 0]] by simp
    have "deref h' cs ! 1 ! 0 = True" using e[of 1 0 3] by (simp add: dr drS)
    moreover have "deref h' cs ! 1 ! 1 = False" using e[of 1 1 4] by (simp add: dr drS)
    moreover have "deref h' cs ! 1 ! 2 = True" using e[of 1 2 5] by (simp add: dr drS)
    ultimately have c1: "deref h' cs ! 1 = [True, False, True]"
      using three[OF l[of 1]] by simp
    from c0 c1 P show ?thesis by (simp add: r)
  qed
  have C: "fst (fuzzy_ground [True, False, True] g) = [1 / 2, 1 / 16, 5 / 8]"
  proof -
    have v: "fdiv (fadd 0 1) 2 = 1 / 2" "fdiv (1 / 8) 2 = 1 / 16" "fdiv (fadd (1 / 4) 1) 2 = 5 / 8"
      by code_simp+
    note P = w[THEN conjunct2, THEN conjunct2, THEN conjunct1]
    have l: "length (fst (fuzzy_ground [True, False, True] g)) = 3" using P by simp
    have e: "fst (fuzzy_ground [True, False, True] g) ! i =
        (if [True, False, True] ! i then fdiv (fadd (draw g i) 1) 2 else fdiv (draw g i) 2)"
      if "i < 3" for i
      using P that by simp
    have x0: "fst (fuzzy_ground [True, False, True] g) ! 0 = 1 / 2"
      using e[of 0] by (simp add: dr drS v)
    have x1: "fst (fuzzy_ground [True, False, True] g) ! 1 = 1 / 16"
      using e[of 1] by (simp add: dr drS v)
    have x2: "fst (fuzzy_ground [True, False, True] g) ! 2 = 5 / 8"
      using e[of 2] by (simp add: dr drS v)
    show ?thesis by (subst three[OF l]) (simp only: x0 x1 x2)
  qed
  have D: "do_majority ens = Inr (Array [0, 1, 1]) \<and> fuzzy_ensemble ens = Inr (Array [0, 1, 1])"
  proof -
    have v: "rint (fdiv (foldl fadd (1 / 4) [1 / 2, 1 / 2]) (fl (of_nat 3))) = 0"
      "rint (fdiv (foldl fadd 1 [1, 0]) (fl (of_nat 3))) = 1"
      "rint (fdiv (foldl fadd 0 [1, 1]) (fl (of_nat 3))) = 1"
      by code_simp+
    have "ens \<noteq> [] \<and> (\<forall>c\<in>set ens. length c = 3)" by (simp add: ens_def)
    with w[THEN conjunct2, THEN conjunct2, THEN conjunct2] obtain out where
      o: "do_majority ens = Inr (Array out)" "fuzzy_ensemble ens = Inr (Array out)"
        "length out = 3"
        "\<forall>i<3. out ! i =
            rint (fdiv (if (3::nat) = 1 then pairwise_sum (map (\<lambda>c. c ! i) ens)
                        else foldl fadd (hd ens ! i) (map (\<lambda>c. c ! i) (tl ens)))
                       (fl (of_nat (length ens))))"
      by blast
    have "out ! 0 = 0" using o(4)[rule_format, of 0] v(1) by (simp add: ens_def)
    moreover have "out ! 1 = 1" using o(4)[rule_format, of 1] v(2) by (simp add: ens_def)
    moreover have "out ! 2 = 1" using o(4)[rule_format, of 2] v(3) by (simp add: ens_def)
    ultimately have "out = [0, 1, 1]" using three[OF o(3)] by simp
    with o(1,2) show ?thesis by simp
  qed
  from A B C D show ?thesis by (simp add: g_def ens_def)
qed

text \<open>
  C9. The synthesizers do not mutate the sequence they start from: after
  \<^verbatim>\<open>create_classifiers\<close> the list \<open>ground_truth\<close> refers to is unchanged, and after
  \<^verbatim>\<open>make_corr_classifiers\<close> the list \<open>base_sys\<close> refers to is unchanged. Flips are
  written to the fresh copies only: every list that existed before the call is unchanged.
\<close>

theorem synthesizers_leave_reference_unchanged:
  "(ground_truth < length h \<longrightarrow>
      (case create_classifiers ground_truth num_classifiers flip_ratio (h, g) of
         (classifiers, h', g') \<Rightarrow>
           h' ! ground_truth = h ! ground_truth \<and> take (length h) h' = h)) \<and>
   (base_sys < length h \<longrightarrow>
      (case make_corr_classifiers base_sys flip num_classifiers (h, g) of
         (corr_classifiers, h', g') \<Rightarrow>
           h' ! base_sys = h ! base_sys \<and> take (length h) h' = h))"
proof (intro conjI impI)
  assume gt: "ground_truth < length h"
  obtain cs h' g' where
    r: "create_classifiers ground_truth num_classifiers flip_ratio (h, g) = (cs, h', g')"
    by (cases "create_classifiers ground_truth num_classifiers flip_ratio (h, g)")
  then have "fst (snd (create_classifiers ground_truth num_classifiers flip_ratio (h, g))) = h'"
    by simp
  from create_classifiers_frame(3)[OF gt this] have t: "take (length h) h' = h" .
  then have "h' ! ground_truth = h ! ground_truth" using gt by (metis nth_take)
  with t show "case create_classifiers ground_truth num_classifiers flip_ratio (h, g) of
      (classifiers, h', g') \<Rightarrow> h' ! ground_truth = h ! ground_truth \<and> take (length h) h' = h"
    by (simp add: r)
next
  assume b: "base_sys < length h"
  from make_corr_loop_frame[OF b, of flip num_classifiers "[]" g] obtain h' g' where
    r: "make_corr_classifiers base_sys flip num_classifiers (h, g) =
          ([length h..<length h + num_classifiers], h', g')"
    and t: "take (length h) h' = h"
    by (auto simp: make_corr_classifiers_def)
  from t have "h' ! base_sys = h ! base_sys" using b by (metis nth_take)
  with t show "case make_corr_classifiers base_sys flip num_classifiers (h, g) of
      (corr_classifiers, h', g') \<Rightarrow> h' ! base_sys = h ! base_sys \<and> take (length h) h' = h"
    by (simp add: r)
qed

theorem synthesizers_leave_reference_unchanged_witness:
  "((0::nat) < length [[True, False, True]] \<and>
      (case create_classifiers 0 2 (2 / 5) ([[True, False, True]], \<lambda>n. of_nat n * 977) of
         (classifiers, h', g') \<Rightarrow> h' ! 0 = [True, False, True])) \<and>
   ((0::nat) < length [[True, False, True]] \<and>
      (case make_corr_classifiers 0 (1 / 10) 2 ([[True, False, True]], \<lambda>n. of_nat n * 977) of
         (corr_classifiers, h', g') \<Rightarrow> h' ! 0 = [True, False, True]))"
  using synthesizers_leave_reference_unchanged
          [of 0 "[[True, False, True]]" 2 "2 / 5" "\<lambda>n. of_nat n * 977" 0 "1 / 10"]
  by (auto split: prod.splits)

end
